theory Spec2Isabelle
  imports Main "HOL-Library.Word" "HOL-Library.Multiset"
begin

unbundle bit_operations_syntax

section \<open>The symbol decoder (av1\_symbol.c)\<close>

text \<open>
  Conventions of the embedding.
  \<^item> The unsigned C integers (\<open>uint8_t\<close>, \<open>uint16_t\<close>, \<open>uint32_t\<close>, \<open>uint64_t\<close>) are
    words of that width; their arithmetic wraps around as in C.
  \<^item> A buffer \<open>(data, size)\<close> is a list of bytes; \<open>size\<close> is its length, and
    \<open>size_t\<close> is a 64-bit word.
  \<^item> \<open>symbol_max_bits\<close> is an \<open>int32_t\<close>. Its initial value is a conversion from
    \<open>uint32_t\<close>, written out with \<open>sint\<close>; afterwards it is only decremented, and a signed
    overflow is undefined behaviour in C, so the model keeps the value in \<open>int\<close>.
    The candidate index \<open>symbol\<close> of the CDF walk (also \<open>int32_t\<close>) indexes the list
    and is a \<open>nat\<close>.
  \<^item> A function that can fail returns \<open>Inl msg\<close> with the diagnostic of the source (format
    arguments dropped). The decoder is mutated in place in C, so the stateful operations
    return the decoder (and the CDF) as they are left on both outcomes.
\<close>

record Av1BitReader =
  data :: "8 word list"
  bitpos :: "64 word"

record Av1SymbolDecoder =
  br :: Av1BitReader
  symbol_value :: "32 word"
  symbol_range :: "32 word"
  symbol_max_bits :: int
  disable_cdf_update :: bool

function floor_log2_loop :: "32 word \<Rightarrow> 32 word \<Rightarrow> 32 word" where
  "floor_log2_loop n r = (if 2 \<le> n then floor_log2_loop (drop_bit 1 n) (r + 1) else r)"
  by pat_completeness auto
termination
proof (relation "measure (\<lambda>(n, r). unat n)")
  show "wf (measure (\<lambda>(n :: 32 word, r :: 32 word). unat n))" by simp
next
  fix n r :: "32 word"
  assume "2 \<le> n"
  then have "0 < unat n" by (simp add: word_le_nat_alt)
  then have "unat n div 2 < unat n" by simp
  then show "((drop_bit 1 n, r + 1), (n, r)) \<in> measure (\<lambda>(n, r). unat n)"
    by (simp add: drop_bit_eq_div unat_div)
qed

declare floor_log2_loop.simps [simp del]

definition floor_log2_u32 :: "32 word \<Rightarrow> 32 word" where
  "floor_log2_u32 n = floor_log2_loop n 0"

definition byte_bit :: "8 word \<Rightarrow> 64 word \<Rightarrow> 32 word" where
  "byte_bit byte pos = ucast (drop_bit (7 - unat (pos AND 7)) byte) AND 1"

definition br_read_bit :: "Av1BitReader \<Rightarrow> (32 word \<times> Av1BitReader) option" where
  "br_read_bit b =
     (if length (data b) \<le> unat (drop_bit 3 (bitpos b)) then None
      else Some (byte_bit (data b ! unat (drop_bit 3 (bitpos b))) (bitpos b),
                 b\<lparr>bitpos := bitpos b + 1\<rparr>))"

fun br_read_bits_loop :: "Av1BitReader \<Rightarrow> nat \<Rightarrow> 32 word \<Rightarrow> 32 word option \<times> Av1BitReader" where
  "br_read_bits_loop b 0 v = (Some v, b)"
| "br_read_bits_loop b (Suc k) v =
     (case br_read_bit b of
        None \<Rightarrow> (None, b)
      | Some (x, b') \<Rightarrow> br_read_bits_loop b' k (push_bit 1 v OR x))"

definition br_read_bits :: "Av1BitReader \<Rightarrow> nat \<Rightarrow> 32 word option \<times> Av1BitReader" where
  "br_read_bits b n =
     (if n = 0 then (Some 0, b)
      else if 32 < n then (None, b)
      else br_read_bits_loop b n 0)"

definition get_bit_at :: "8 word list \<Rightarrow> 64 word \<Rightarrow> 32 word option" where
  "get_bit_at d pos =
     (if length d \<le> unat (drop_bit 3 pos) then None
      else Some (byte_bit (d ! unat (drop_bit 3 pos)) pos))"

definition av1_symbol_init :: "8 word list \<Rightarrow> bool \<Rightarrow> string + Av1SymbolDecoder" where
  "av1_symbol_init d dcu =
     (let sz8 = (word_of_nat (length d) :: 64 word) * 8;
          numBits = unat (if sz8 < 15 then sz8 else 15)
      in case br_read_bits \<lparr>data = d, bitpos = 0\<rparr> numBits of
           (None, b1) \<Rightarrow> Inl ''truncated init_symbol buf''
         | (Some buf, b1) \<Rightarrow>
             Inr \<lparr>br = b1,
                  symbol_value = (2 ^ 15 - 1) XOR push_bit (15 - numBits) buf,
                  symbol_range = 2 ^ 15,
                  symbol_max_bits = sint (8 * (word_of_nat (length d) :: 32 word)) - 15,
                  disable_cdf_update = dcu\<rparr>)"

definition cdf_threshold :: "32 word \<Rightarrow> 16 word list \<Rightarrow> nat \<Rightarrow> nat \<Rightarrow> 32 word" where
  "cdf_threshold rng cdf n symbol =
     (let f = 2 ^ 15 - (ucast (cdf ! symbol) :: 32 word)
      in drop_bit 1 (drop_bit 8 rng * drop_bit 6 f) + 4 * word_of_nat (n - symbol - 1))"

function cdf_walk ::
  "32 word \<Rightarrow> 32 word \<Rightarrow> 16 word list \<Rightarrow> nat \<Rightarrow> nat \<Rightarrow> 32 word \<Rightarrow> (nat \<times> 32 word \<times> 32 word) option" where
  "cdf_walk rng val cdf n symbol cur =
     (if n \<le> symbol then None
      else let t = cdf_threshold rng cdf n symbol
           in if t \<le> val then Some (symbol, cur, t)
              else cdf_walk rng val cdf n (Suc symbol) t)"
  by pat_completeness auto
termination
  by (relation "measure (\<lambda>(rng, val, cdf, n, symbol, cur). n - symbol)") auto

declare cdf_walk.simps [simp del]

function cdf_update_loop ::
  "nat \<Rightarrow> nat \<Rightarrow> nat \<Rightarrow> nat \<Rightarrow> 32 word \<Rightarrow> 16 word list \<Rightarrow> 16 word list" where
  "cdf_update_loop n symbol rate i tmp cdf =
     (if i + 1 < n then
        let tmp' = (if i = symbol then 2 ^ 15 else tmp);
            ci = (ucast (cdf ! i) :: 32 word);
            ci1 = (if tmp' < ci then ci - drop_bit rate (ci - tmp')
                   else ci + drop_bit rate (tmp' - ci));
            ci2 = (if 2 ^ 15 < ci1 then 2 ^ 15 else ci1)
        in cdf_update_loop n symbol rate (i + 1) tmp' (cdf[i := ucast ci2])
      else cdf)"
  by pat_completeness auto
termination
  by (relation "measure (\<lambda>(n, symbol, rate, i, tmp, cdf). n - i)") auto

declare cdf_update_loop.simps [simp del]

definition cdf_rate :: "16 word \<Rightarrow> nat \<Rightarrow> 32 word" where
  "cdf_rate cnt n =
     (let rate = 3 + (if 15 < cnt then 1 else 0) + (if 31 < cnt then 1 else 0);
          lg = floor_log2_u32 (word_of_nat n)
      in rate + (if lg < 2 then lg else 2))"

definition cdf_update :: "16 word list \<Rightarrow> nat \<Rightarrow> nat \<Rightarrow> 16 word list" where
  "cdf_update cdf n symbol =
     (let cdf1 = cdf_update_loop n symbol (unat (cdf_rate (cdf ! n) n)) 0 0 cdf
      in if cdf1 ! n < 32 then cdf1[n := cdf1 ! n + 1] else cdf1)"

text \<open>
  The renormalisation step of \<open>av1_symbol_read_symbol\<close> (the part of the function under
  the comment \<open>// Renormalization\<close>), applied to the decoder after \<open>symbol_range\<close> and
  \<open>symbol_value\<close> have been narrowed to the decoded symbol.
\<close>

definition symbol_renorm :: "Av1SymbolDecoder \<Rightarrow> (string + unit) \<times> Av1SymbolDecoder" where
  "symbol_renorm sd1 =
     (if symbol_range sd1 = 0 then (Inl ''invalid symbol_range=0'', sd1)
      else let bits = 15 - floor_log2_u32 (symbol_range sd1)
      in if 15 < bits then (Inl ''invalid renorm bits'', sd1)
         else let sd2 = sd1\<lparr>symbol_range := push_bit (unat bits) (symbol_range sd1)\<rparr>;
                  maxReadable = (if symbol_max_bits sd2 < 0 then 0 else symbol_max_bits sd2);
                  numBits = (if maxReadable < int (unat bits) then nat maxReadable else unat bits)
              in case (if numBits \<noteq> 0 then br_read_bits (br sd2) numBits else (Some 0, br sd2)) of
                   (None, b') \<Rightarrow> (Inl ''truncated symbol renorm bits'', sd2\<lparr>br := b'\<rparr>)
                 | (Some newData, b') \<Rightarrow>
                     (Inr (),
                      sd2\<lparr>br := b',
                          symbol_value := push_bit (unat bits - numBits) newData XOR
                            (push_bit (unat bits) (symbol_value sd2 + 1) - 1),
                          symbol_max_bits := symbol_max_bits sd2 - int (unat bits)\<rparr>))"

definition av1_symbol_read_symbol ::
  "Av1SymbolDecoder \<Rightarrow> 16 word list \<Rightarrow> nat \<Rightarrow> (string + 32 word) \<times> Av1SymbolDecoder \<times> 16 word list" where
  "av1_symbol_read_symbol sd cdf n =
     (if n \<le> 1 then (Inl ''invalid cdf size'', sd, cdf)
      else if cdf ! (n - 1) \<noteq> 2 ^ 15 then (Inl ''cdf[n-1] must equal 1<<15'', sd, cdf)
      else case cdf_walk (symbol_range sd) (symbol_value sd) cdf n 0 (symbol_range sd) of
        None \<Rightarrow> (Inl ''symbol decode failed (cdf walk overflow)'', sd, cdf)
      | Some (symbol, prev, cur) \<Rightarrow>
          (case symbol_renorm (sd\<lparr>symbol_range := prev - cur, symbol_value := symbol_value sd - cur\<rparr>) of
             (Inl e, sd') \<Rightarrow> (Inl e, sd', cdf)
           | (Inr u, sd') \<Rightarrow>
               (Inr (word_of_nat symbol), sd',
                if disable_cdf_update sd' then cdf else cdf_update cdf n symbol)))"

definition av1_symbol_read_bool :: "Av1SymbolDecoder \<Rightarrow> (string + 32 word) \<times> Av1SymbolDecoder" where
  "av1_symbol_read_bool sd =
     (let saved = disable_cdf_update sd
      in case av1_symbol_read_symbol (sd\<lparr>disable_cdf_update := True\<rparr>) [2 ^ 14, 2 ^ 15, 0] 2 of
           (r, sd', cdf') \<Rightarrow> (r, sd'\<lparr>disable_cdf_update := saved\<rparr>))"

fun read_literal_loop ::
  "Av1SymbolDecoder \<Rightarrow> nat \<Rightarrow> 32 word \<Rightarrow> (string + 32 word) \<times> Av1SymbolDecoder" where
  "read_literal_loop sd 0 x = (Inr x, sd)"
| "read_literal_loop sd (Suc k) x =
     (case av1_symbol_read_bool sd of
        (Inl e, sd') \<Rightarrow> (Inl e, sd')
      | (Inr b, sd') \<Rightarrow> read_literal_loop sd' k (push_bit 1 x OR (b AND 1)))"

definition av1_symbol_read_literal ::
  "Av1SymbolDecoder \<Rightarrow> nat \<Rightarrow> (string + 32 word) \<times> Av1SymbolDecoder" where
  "av1_symbol_read_literal sd n =
     (if 32 < n then (Inl ''unsupported literal width'', sd)
      else read_literal_loop sd n 0)"

function exit_padding_loop :: "8 word list \<Rightarrow> 64 word \<Rightarrow> 64 word \<Rightarrow> string option" where
  "exit_padding_loop d pos e =
     (if pos < e then
        (case get_bit_at d pos of
           None \<Rightarrow> Some ''trailing padding bit out of range''
         | Some b \<Rightarrow> if b \<noteq> 0 then Some ''nonzero trailing padding bit''
                     else exit_padding_loop d (pos + 1) e)
      else None)"
  by pat_completeness auto
termination
proof (relation "measure (\<lambda>(d, pos, e). unat e - unat pos)")
  show "wf (measure (\<lambda>(d :: 8 word list, pos :: 64 word, e :: 64 word). unat e - unat pos))"
    by simp
next
  fix d :: "8 word list" and pos e :: "64 word" and x2 :: "32 word"
  assume "pos < e"
  then have lt: "unat pos < unat e" by (simp add: word_less_nat_alt)
  have b: "unat e < 2 ^ LENGTH(64)" by (rule unsigned_less)
  from lt b have "unat pos + 1 < 2 ^ LENGTH(64)" by linarith
  then have "unat pos + unat (1 :: 64 word) < 2 ^ LENGTH(64)" by simp
  then have "unat (pos + 1) = unat pos + unat (1 :: 64 word)" by (simp only: unat_add_lem)
  then have "unat (pos + 1) = unat pos + 1" by simp
  with lt show "((d, pos + 1, e), (d, pos, e)) \<in> measure (\<lambda>(d, pos, e). unat e - unat pos)"
    by simp
qed

declare exit_padding_loop.simps [simp del]

definition av1_symbol_exit :: "Av1SymbolDecoder \<Rightarrow> (string + unit) \<times> Av1SymbolDecoder" where
  "av1_symbol_exit sd =
     (if symbol_max_bits sd < - 14 then (Inl ''SymbolMaxBits < -14 at exit'', sd)
      else let smb_plus_15 = symbol_max_bits sd + 15;
               minv = (if smb_plus_15 < 15 then (if smb_plus_15 < 0 then 0 else nat smb_plus_15)
                       else 15);
               cur_pos = bitpos (br sd)
      in if cur_pos < word_of_nat minv then (Inl ''invalid trailingBitPosition (underflow)'', sd)
         else let trailingBitPosition = cur_pos - word_of_nat minv;
                  sd1 = (if 0 < symbol_max_bits sd
                         then sd\<lparr>br := (br sd)\<lparr>bitpos := bitpos (br sd) + word_of_int (symbol_max_bits sd)\<rparr>\<rparr>
                         else sd);
                  paddingEndPosition = bitpos (br sd1);
                  totalBits = (word_of_nat (length (data (br sd1))) :: 64 word) * 8
         in if paddingEndPosition AND 7 \<noteq> 0 then (Inl ''exit_symbol ended unaligned'', sd1)
            else if totalBits < paddingEndPosition
              then (Inl ''exit_symbol advanced beyond end of buffer'', sd1)
            else case get_bit_at (data (br sd1)) trailingBitPosition of
              None \<Rightarrow> (Inl ''trailingBitPosition out of range'', sd1)
            | Some b \<Rightarrow>
                if b \<noteq> 1 then (Inl ''trailing bit not 1'', sd1)
                else (case exit_padding_loop (data (br sd1)) (trailingBitPosition + 1) paddingEndPosition of
                        Some e \<Rightarrow> (Inl e, sd1)
                      | None \<Rightarrow> (Inr (), sd1)))"

subsection \<open>Reference notions used to state the properties\<close>

text \<open>\<open>flog2 n\<close> is the mathematical \<open>floor (log2 n)\<close> for \<open>n > 0\<close> (and 0 for \<open>n = 0\<close>).\<close>

fun flog2 :: "nat \<Rightarrow> nat" where
  "flog2 n = (if n < 2 then 0 else Suc (flog2 (n div 2)))"

declare flog2.simps [simp del]

text \<open>
  The decoder after \<open>init\<close> on the two zero bytes of the repository's known-answer tests,
  and after one symbol has been read from the CDF \<open>{16384, 24576, 32768, 0}\<close>.
\<close>

definition kat_sd0 :: Av1SymbolDecoder where
  "kat_sd0 = \<lparr>br = \<lparr>data = [0, 0], bitpos = 15\<rparr>, symbol_value = 32767,
     symbol_range = 32768, symbol_max_bits = 1, disable_cdf_update = False\<rparr>"

definition kat_sd1 :: Av1SymbolDecoder where
  "kat_sd1 = \<lparr>br = \<lparr>data = [0, 0], bitpos = 16\<rparr>, symbol_value = 65503,
     symbol_range = 65504, symbol_max_bits = - 1, disable_cdf_update = False\<rparr>"

text \<open>
  The bits of a buffer in stream order (most significant bit of each byte first), and the
  number that a bit sequence denotes when read most significant bit first.
\<close>

definition bits_of_byte :: "8 word \<Rightarrow> bool list" where
  "bits_of_byte b = map (\<lambda>i. bit b (7 - i)) [0..<8]"

definition bits_of_bytes :: "8 word list \<Rightarrow> bool list" where
  "bits_of_bytes d = concat (map bits_of_byte d)"

definition bits_value :: "bool list \<Rightarrow> nat" where
  "bits_value bs = foldl (\<lambda>a b. 2 * a + of_bool b) 0 bs"

text \<open>
  The CDF adaptation rule in the words of the specification: the rate, and the move of one
  entry towards its target by \<open>|c - target| >> rate\<close>.
\<close>

definition spec_rate :: "nat \<Rightarrow> nat \<Rightarrow> nat" where
  "spec_rate c N = 3 + (if 15 < c then 1 else 0) + (if 31 < c then 1 else 0) + min (flog2 N) 2"

definition spec_move :: "nat \<Rightarrow> nat \<Rightarrow> nat \<Rightarrow> nat" where
  "spec_move c target rate =
     (if target < c then c - (c - target) div 2 ^ rate else c + (target - c) div 2 ^ rate)"

text \<open>One iteration of the CDF update loop, as a function of the entry it rewrites.\<close>

definition cdf_step :: "nat \<Rightarrow> 32 word \<Rightarrow> 16 word \<Rightarrow> 16 word" where
  "cdf_step rate tmp c =
     (let ci = (ucast c :: 32 word);
          ci1 = (if tmp < ci then ci - drop_bit rate (ci - tmp) else ci + drop_bit rate (tmp - ci));
          ci2 = (if 2 ^ 15 < ci1 then 2 ^ 15 else ci1)
      in ucast ci2)"

subsection \<open>Renormalisation, reachable states and the trailing bits\<close>

definition renorm_bits :: "Av1SymbolDecoder \<Rightarrow> nat" where
  "renorm_bits sd1 = 15 - flog2 (unat (symbol_range sd1))"

definition renorm_numBits :: "Av1SymbolDecoder \<Rightarrow> nat" where
  "renorm_numBits sd1 = nat (min (int (renorm_bits sd1)) (max 0 (symbol_max_bits sd1)))"

definition sd_inv :: "Av1SymbolDecoder \<Rightarrow> bool" where
  "sd_inv sd \<longleftrightarrow>
     symbol_value sd < symbol_range sd \<and> symbol_range sd < 2 ^ 16 \<and>
     int (unat (bitpos (br sd))) + max 0 (symbol_max_bits sd) \<le> 8 * int (length (data (br sd))) \<and>
     length (data (br sd)) < 2 ^ 60"

inductive reachable :: "8 word list \<Rightarrow> Av1SymbolDecoder \<Rightarrow> bool" where
  r_init: "av1_symbol_init d dcu = Inr sd \<Longrightarrow> reachable d sd"
| r_symbol: "reachable d sd \<Longrightarrow> av1_symbol_read_symbol sd cdf n = (Inr s, sd', cdf') \<Longrightarrow> reachable d sd'"
| r_bool: "reachable d sd \<Longrightarrow> av1_symbol_read_bool sd = (Inr b, sd') \<Longrightarrow> reachable d sd'"
| r_literal: "reachable d sd \<Longrightarrow> av1_symbol_read_literal sd n = (Inr x, sd') \<Longrightarrow> reachable d sd'"

definition exit_inv :: "8 word list \<Rightarrow> Av1SymbolDecoder \<Rightarrow> bool" where
  "exit_inv d sd \<longleftrightarrow> data (br sd) = d \<and>
     int (unat (bitpos (br sd))) + max 0 (symbol_max_bits sd) = 8 * int (length d) \<and>
     symbol_max_bits sd \<le> 8 * int (length d) - 15"

definition trailing_bits_ok :: "8 word list \<Rightarrow> nat \<Rightarrow> nat \<Rightarrow> bool" where
  "trailing_bits_ok d tp e \<longleftrightarrow>
     tp < 8 * length d \<and> bits_of_bytes d ! tp \<and>
     (\<forall>p \<in> {Suc tp..<e}. p < 8 * length d \<and> \<not> bits_of_bytes d ! p)"

definition kat_sd80 :: Av1SymbolDecoder where
  "kat_sd80 = \<lparr>br = \<lparr>data = [0x80, 0], bitpos = 15\<rparr>, symbol_value = 16383,
     symbol_range = 32768, symbol_max_bits = 1, disable_cdf_update = False\<rparr>"

definition kat_sd_empty :: Av1SymbolDecoder where
  "kat_sd_empty = \<lparr>br = \<lparr>data = [], bitpos = 0\<rparr>, symbol_value = 32767,
     symbol_range = 32768, symbol_max_bits = - 15, disable_cdf_update = False\<rparr>"

definition kat_big :: "8 word list" where
  "kat_big = 1 # replicate (2 ^ 29) 0"

definition kat_sd_big :: Av1SymbolDecoder where
  "kat_sd_big = \<lparr>br = \<lparr>data = kat_big, bitpos = 15\<rparr>, symbol_value = 32639,
     symbol_range = 32768, symbol_max_bits = - 7, disable_cdf_update = False\<rparr>"

subsection \<open>States that differ in the bit position only\<close>

definition unchanged_but_bitpos :: "Av1SymbolDecoder \<Rightarrow> Av1SymbolDecoder \<Rightarrow> bool" where
  "unchanged_but_bitpos sd sd' \<longleftrightarrow>
     data (br sd') = data (br sd) \<and> symbol_value sd' = symbol_value sd \<and>
     symbol_range sd' = symbol_range sd \<and> symbol_max_bits sd' = symbol_max_bits sd \<and>
     disable_cdf_update sd' = disable_cdf_update sd"

subsection \<open>States that differ in the coding interval only\<close>

definition unchanged_but_interval :: "Av1SymbolDecoder \<Rightarrow> Av1SymbolDecoder \<Rightarrow> bool" where
  "unchanged_but_interval sd sd' \<longleftrightarrow>
     data (br sd') = data (br sd) \<and> symbol_max_bits sd' = symbol_max_bits sd \<and>
     disable_cdf_update sd' = disable_cdf_update sd"

text \<open>
  Two decoder states that no initialisation produces: in both \<open>symbol_max_bits\<close> promises more
  bits than the buffer holds, so that a renormalisation runs out of data.
\<close>

definition kat_sd_short :: Av1SymbolDecoder where
  "kat_sd_short = \<lparr>br = \<lparr>data = [0], bitpos = 7\<rparr>, symbol_value = 0,
     symbol_range = 32768, symbol_max_bits = 20, disable_cdf_update = False\<rparr>"

definition kat_sd_starved :: Av1SymbolDecoder where
  "kat_sd_starved = \<lparr>br = \<lparr>data = [], bitpos = 0\<rparr>, symbol_value = 20000,
     symbol_range = 32768, symbol_max_bits = 5, disable_cdf_update = False\<rparr>"

subsection \<open>The scan orders (build\_scan in av1\_decode\_tile.c)\<close>

text \<open>
  \<open>build_scan\<close> writes \<open>out_scan[0]\<close>, \<open>out_scan[1]\<close>, ... in this order; the model returns the
  list of the values written. The loop \<open>for (i = i0; i < n; i++)\<close> over \<open>uint32_t\<close> is
  \<open>upto_loop\<close>, the loop \<open>for (; x + 1u > x_min; x--) { ...; if (x == x_min) break; }\<close> is
  \<open>down_loop\<close>, and the loop over the diagonals, \<open>for (sum = 0; sum <= max_sum; sum++)\<close>, which
  does not end when \<open>max_sum\<close> is \<open>0xFFFFFFFF\<close>, returns \<open>None\<close> when it does not end.
\<close>

definition AV1_TX_CLASS_2D :: "32 word" where "AV1_TX_CLASS_2D = 0"
definition AV1_TX_CLASS_HORIZ :: "32 word" where "AV1_TX_CLASS_HORIZ = 1"
definition AV1_TX_CLASS_VERT :: "32 word" where "AV1_TX_CLASS_VERT = 2"

function upto_loop :: "32 word \<Rightarrow> 32 word \<Rightarrow> (32 word \<Rightarrow> 'a list) \<Rightarrow> 'a list" where
  "upto_loop i n body = (if i < n then body i @ upto_loop (i + 1) n body else [])"
  by pat_completeness auto
termination
proof (relation "measure (\<lambda>(i, n, body). unat n - unat i)")
  show "wf (measure (\<lambda>(i :: 32 word, n :: 32 word, body :: 32 word \<Rightarrow> 'a list). unat n - unat i))"
    by simp
next
  fix i n :: "32 word" and body :: "32 word \<Rightarrow> 'a list"
  assume "i < n"
  then have lt: "unat i < unat n" by (simp add: word_less_nat_alt)
  have b: "unat n < 2 ^ LENGTH(32)" by (rule unsigned_less)
  from lt b have "unat i + 1 < 2 ^ LENGTH(32)" by linarith
  then have "unat i + unat (1 :: 32 word) < 2 ^ LENGTH(32)" by simp
  then have "unat (i + 1) = unat i + unat (1 :: 32 word)" by (simp only: unat_add_lem)
  then have "unat (i + 1) = unat i + 1" by simp
  with lt show "((i + 1, n, body), (i, n, body)) \<in> measure (\<lambda>(i, n, body). unat n - unat i)"
    by simp
qed

declare upto_loop.simps [simp del]

function down_loop :: "32 word \<Rightarrow> 32 word \<Rightarrow> (32 word \<Rightarrow> 'a) \<Rightarrow> 'a list" where
  "down_loop x x_min f =
     (if x_min < x + 1 then f x # (if x = x_min then [] else down_loop (x - 1) x_min f) else [])"
  by pat_completeness auto
termination
proof (relation "measure (\<lambda>(x, x_min, f). unat x)")
  show "wf (measure (\<lambda>(x :: 32 word, x_min :: 32 word, f :: 32 word \<Rightarrow> 'a). unat x))"
    by simp
next
  fix x x_min :: "32 word" and f :: "32 word \<Rightarrow> 'a"
  assume a: "x_min < x + 1" and ne: "x \<noteq> x_min"
  have "x \<noteq> 0"
  proof
    assume "x = 0"
    with a have "x_min < 1" by simp
    then have "x_min = 0" by (simp add: word_less_1)
    with ne \<open>x = 0\<close> show False by simp
  qed
  then have "1 \<le> x" by (simp add: word_le_nat_alt unat_gt_0 Suc_le_eq)
  from unat_sub [OF this] have "unat (x - 1) = unat x - 1" by simp
  moreover from \<open>x \<noteq> 0\<close> have "0 < unat x" by (simp add: unat_gt_0)
  ultimately show "((x - 1, x_min, f), (x, x_min, f)) \<in> measure (\<lambda>(x, x_min, f). unat x)"
    by simp
qed

declare down_loop.simps [simp del]

definition scan_diagonal :: "32 word \<Rightarrow> 32 word \<Rightarrow> 32 word \<Rightarrow> 16 word list" where
  "scan_diagonal width height sumd =
     (if sumd AND 1 = 0 then
        let row = (if sumd < height - 1 then sumd else height - 1);
            row_min = (if width - 1 < sumd then sumd - (width - 1) else 0)
        in down_loop row row_min (\<lambda>row. ucast (row * width + (sumd - row)))
      else
        let col = (if sumd < width - 1 then sumd else width - 1);
            col_min = (if height - 1 < sumd then sumd - (height - 1) else 0)
        in down_loop col col_min (\<lambda>col. ucast ((sumd - col) * width + col)))"

partial_function (option) scan_diagonals ::
  "32 word \<Rightarrow> 32 word \<Rightarrow> 32 word \<Rightarrow> 32 word \<Rightarrow> 16 word list \<Rightarrow> 16 word list option" where
  "scan_diagonals width height max_sum sumd acc =
     (if sumd \<le> max_sum
      then scan_diagonals width height max_sum (sumd + 1) (acc @ scan_diagonal width height sumd)
      else Some acc)"

declare scan_diagonals.simps [code]

definition build_scan :: "32 word \<Rightarrow> 32 word \<Rightarrow> 32 word \<Rightarrow> 16 word list option" where
  "build_scan tx_class width height =
     (if tx_class = AV1_TX_CLASS_VERT then
        Some (upto_loop 0 width (\<lambda>col. upto_loop 0 height (\<lambda>row. [ucast (row * width + col)])))
      else if tx_class = AV1_TX_CLASS_HORIZ then
        Some (upto_loop 0 height (\<lambda>row. upto_loop 0 width (\<lambda>col. [ucast (row * width + col)])))
      else
        let max_sum = (if width + height \<noteq> 0 then width + height - 2 else 0)
        in scan_diagonals width height max_sum 0 [])"

text \<open>
  The three orders that the scans are compared with, as lists of raster positions
  \<open>row * w + col\<close> of a block \<open>w\<close> wide and \<open>h\<close> high. The zigzag order visits the diagonals
  \<open>row + col = 0, 1, 2, ...\<close> in turn, the even ones from their bottom-left cell to their
  top-right cell and the odd ones from top-right to bottom-left.
\<close>

definition diagonal_cells :: "nat \<Rightarrow> nat \<Rightarrow> nat \<Rightarrow> (nat \<times> nat) list" where
  "diagonal_cells w h s = map (\<lambda>r. (r, s - r)) (filter (\<lambda>r. r \<le> s \<and> s - r < w) [0..<h])"

definition raster :: "nat \<Rightarrow> nat \<times> nat \<Rightarrow> nat" where
  "raster w rc = fst rc * w + snd rc"

definition zigzag_order :: "nat \<Rightarrow> nat \<Rightarrow> nat list" where
  "zigzag_order w h =
     concat (map (\<lambda>s. map (raster w) (if even s then rev (diagonal_cells w h s) else diagonal_cells w h s))
               [0..<w + h - 1])"

definition row_major_order :: "nat \<Rightarrow> nat \<Rightarrow> nat list" where
  "row_major_order w h = concat (map (\<lambda>r. map (\<lambda>c. raster w (r, c)) [0..<w]) [0..<h])"

definition col_major_order :: "nat \<Rightarrow> nat \<Rightarrow> nat list" where
  "col_major_order w h = concat (map (\<lambda>c. map (\<lambda>r. raster w (r, c)) [0..<h]) [0..<w])"

subsection \<open>The end-of-block position (eob) in av1\_decode\_tile.c\<close>

text \<open>
  The transform sizes are the values 0 to 18 of the enumeration \<open>AV1_TX_4X4\<close>, ...,
  \<open>AV1_TX_64X16\<close>; the four tables are indexed by them.
\<close>

definition AV1_TX_SIZES_ALL :: "32 word" where "AV1_TX_SIZES_ALL = 19"
definition AV1_TX_16X64 :: "32 word" where "AV1_TX_16X64 = 17"
definition AV1_TX_64X16 :: "32 word" where "AV1_TX_64X16 = 18"
definition AV1_COEFF_TX_SIZES :: "32 word" where "AV1_COEFF_TX_SIZES = 5"
definition AV1_EOB_COEF_CONTEXTS :: "32 word" where "AV1_EOB_COEF_CONTEXTS = 9"
definition AV1_MAX_PLANES :: "32 word" where "AV1_MAX_PLANES = 3"
definition AV1_TX_TYPE_V_DCT :: "32 word" where "AV1_TX_TYPE_V_DCT = 2"
definition AV1_TX_TYPE_H_DCT :: "32 word" where "AV1_TX_TYPE_H_DCT = 3"

definition kTxSizeSqr :: "8 word list" where
  "kTxSizeSqr = [0, 1, 2, 3, 4, 0, 0, 1, 1, 2, 2, 3, 3, 0, 0, 1, 1, 2, 2]"

definition kTxSizeSqrUp :: "8 word list" where
  "kTxSizeSqrUp = [0, 1, 2, 3, 4, 1, 1, 2, 2, 3, 3, 4, 4, 2, 2, 3, 3, 4, 4]"

definition kTxWidthLog2 :: "8 word list" where
  "kTxWidthLog2 = [2, 3, 4, 5, 6, 2, 3, 3, 4, 4, 5, 5, 6, 2, 4, 3, 5, 4, 6]"

definition kTxHeightLog2 :: "8 word list" where
  "kTxHeightLog2 = [2, 3, 4, 5, 6, 3, 2, 4, 3, 5, 4, 6, 5, 4, 2, 5, 3, 6, 4]"

definition tx_sz_ctx_from_tx_size :: "32 word \<Rightarrow> 32 word" where
  "tx_sz_ctx_from_tx_size tx_size =
     (if AV1_TX_SIZES_ALL \<le> tx_size then 0
      else let a = (ucast (kTxSizeSqr ! unat tx_size) :: 32 word);
               b = (ucast (kTxSizeSqrUp ! unat tx_size) :: 32 word);
               ctx = drop_bit 1 (a + b + 1)
           in if AV1_COEFF_TX_SIZES \<le> ctx then AV1_COEFF_TX_SIZES - 1 else ctx)"

definition get_tx_class_from_tx_type :: "32 word \<Rightarrow> 32 word" where
  "get_tx_class_from_tx_type tx_type =
     (if tx_type = AV1_TX_TYPE_V_DCT then AV1_TX_CLASS_VERT
      else if tx_type = AV1_TX_TYPE_H_DCT then AV1_TX_CLASS_HORIZ
      else AV1_TX_CLASS_2D)"

text \<open>
  The per-tile coefficient CDFs. Of the structure \<open>Av1TileCoeffCdfs\<close> the record has the
  arrays that the coefficient decoder reads up to the check of \<open>eob\<close>; a CDF of \<open>N\<close> symbols is
  its innermost array, of \<open>N + 1\<close> elements. \<open>read_symbol\<close> adapts the array it is given in
  place: the model stores the array that \<open>av1_symbol_read_symbol\<close> returns back at its index.
\<close>

record Av1TileCoeffCdfs =
  txb_skip :: "16 word list list list"
  eob_pt_16 :: "16 word list list list"
  eob_pt_32 :: "16 word list list list"
  eob_pt_64 :: "16 word list list list"
  eob_pt_128 :: "16 word list list list"
  eob_pt_256 :: "16 word list list list"
  eob_pt_512 :: "16 word list list"
  eob_pt_1024 :: "16 word list list"
  eob_extra :: "16 word list list list list"

definition list_update2 :: "'a list list \<Rightarrow> nat \<Rightarrow> nat \<Rightarrow> 'a \<Rightarrow> 'a list list" where
  "list_update2 xs i j v = xs[i := (xs ! i)[j := v]]"

definition list_update3 :: "'a list list list \<Rightarrow> nat \<Rightarrow> nat \<Rightarrow> nat \<Rightarrow> 'a \<Rightarrow> 'a list list list" where
  "list_update3 xs i j k v = xs[i := list_update2 (xs ! i) j k v]"

text \<open>
  The choice of the \<open>eob_pt\<close> CDF by \<open>eobMultisize\<close> and the transform class, and the read of
  the symbol from it.
\<close>

definition read_eob_pt ::
  "Av1SymbolDecoder \<Rightarrow> Av1TileCoeffCdfs \<Rightarrow> nat \<Rightarrow> 32 word \<Rightarrow> 32 word \<Rightarrow>
   (string + 32 word) \<times> Av1SymbolDecoder \<times> Av1TileCoeffCdfs" where
  "read_eob_pt sd coeff_cdfs ptype tx_size tx_type =
     (let tx_wlog2 = (ucast (kTxWidthLog2 ! unat tx_size) :: 32 word);
          tx_hlog2 = (ucast (kTxHeightLog2 ! unat tx_size) :: 32 word);
          wcap = (if 5 < tx_wlog2 then 5 else tx_wlog2);
          hcap = (if 5 < tx_hlog2 then 5 else tx_hlog2);
          eobMultisize = wcap + hcap - 4;
          eob_ctx = (if get_tx_class_from_tx_type tx_type = AV1_TX_CLASS_2D then 0 else 1)
      in
      if eobMultisize = 0 then
        (case av1_symbol_read_symbol sd (eob_pt_16 coeff_cdfs ! ptype ! eob_ctx) 5 of
           (r, sd', cdf') \<Rightarrow>
             (r, sd', coeff_cdfs\<lparr>eob_pt_16 := list_update2 (eob_pt_16 coeff_cdfs) ptype eob_ctx cdf'\<rparr>))
      else if eobMultisize = 1 then
        (case av1_symbol_read_symbol sd (eob_pt_32 coeff_cdfs ! ptype ! eob_ctx) 6 of
           (r, sd', cdf') \<Rightarrow>
             (r, sd', coeff_cdfs\<lparr>eob_pt_32 := list_update2 (eob_pt_32 coeff_cdfs) ptype eob_ctx cdf'\<rparr>))
      else if eobMultisize = 2 then
        (case av1_symbol_read_symbol sd (eob_pt_64 coeff_cdfs ! ptype ! eob_ctx) 7 of
           (r, sd', cdf') \<Rightarrow>
             (r, sd', coeff_cdfs\<lparr>eob_pt_64 := list_update2 (eob_pt_64 coeff_cdfs) ptype eob_ctx cdf'\<rparr>))
      else if eobMultisize = 3 then
        (case av1_symbol_read_symbol sd (eob_pt_128 coeff_cdfs ! ptype ! eob_ctx) 8 of
           (r, sd', cdf') \<Rightarrow>
             (r, sd', coeff_cdfs\<lparr>eob_pt_128 := list_update2 (eob_pt_128 coeff_cdfs) ptype eob_ctx cdf'\<rparr>))
      else if eobMultisize = 4 then
        (case av1_symbol_read_symbol sd (eob_pt_256 coeff_cdfs ! ptype ! eob_ctx) 9 of
           (r, sd', cdf') \<Rightarrow>
             (r, sd', coeff_cdfs\<lparr>eob_pt_256 := list_update2 (eob_pt_256 coeff_cdfs) ptype eob_ctx cdf'\<rparr>))
      else if eobMultisize = 5 then
        (case av1_symbol_read_symbol sd (eob_pt_512 coeff_cdfs ! ptype) 10 of
           (r, sd', cdf') \<Rightarrow>
             (r, sd', coeff_cdfs\<lparr>eob_pt_512 := (eob_pt_512 coeff_cdfs)[ptype := cdf']\<rparr>))
      else
        (case av1_symbol_read_symbol sd (eob_pt_1024 coeff_cdfs ! ptype) 11 of
           (r, sd', cdf') \<Rightarrow>
             (r, sd', coeff_cdfs\<lparr>eob_pt_1024 := (eob_pt_1024 coeff_cdfs)[ptype := cdf']\<rparr>)))"

text \<open>
  The loop \<open>for (i = 1; i < eobPtMinus2; i++)\<close> that reads the raw bits of \<open>eob\<close>.
\<close>

function eob_bits_loop ::
  "Av1SymbolDecoder \<Rightarrow> 32 word \<Rightarrow> 32 word \<Rightarrow> 32 word \<Rightarrow> (string + 32 word) \<times> Av1SymbolDecoder" where
  "eob_bits_loop sd eobPtMinus2 i eob =
     (if i < eobPtMinus2 then
        let shift = (eobPtMinus2 - 1) - i
        in case av1_symbol_read_bool sd of
             (Inl e, sd') \<Rightarrow> (Inl e, sd')
           | (Inr b, sd') \<Rightarrow>
               eob_bits_loop sd' eobPtMinus2 (i + 1) (if b \<noteq> 0 then eob + push_bit (unat shift) 1 else eob)
      else (Inr eob, sd))"
  by pat_completeness auto
termination
proof (relation "measure (\<lambda>(sd, eobPtMinus2, i, eob). unat eobPtMinus2 - unat i)")
  show "wf (measure (\<lambda>(sd :: Av1SymbolDecoder, eobPtMinus2 :: 32 word, i :: 32 word, eob :: 32 word).
      unat eobPtMinus2 - unat i))"
    by simp
next
  fix sd sd' :: Av1SymbolDecoder and eobPtMinus2 i eob shift b :: "32 word"
    and x :: "(string + 32 word) \<times> Av1SymbolDecoder" and xa :: "string + 32 word"
  assume "i < eobPtMinus2"
  then have lt: "unat i < unat eobPtMinus2" by (simp add: word_less_nat_alt)
  have bd: "unat eobPtMinus2 < 2 ^ LENGTH(32)" by (rule unsigned_less)
  from lt bd have "unat i + 1 < 2 ^ LENGTH(32)" by linarith
  then have "unat i + unat (1 :: 32 word) < 2 ^ LENGTH(32)" by simp
  then have "unat (i + 1) = unat i + unat (1 :: 32 word)" by (simp only: unat_add_lem)
  then have "unat (i + 1) = unat i + 1" by simp
  with lt show "((sd', eobPtMinus2, i + 1, if b \<noteq> 0 then eob + push_bit (unat shift) 1 else eob),
      (sd, eobPtMinus2, i, eob)) \<in> measure (\<lambda>(sd, eobPtMinus2, i, eob). unat eobPtMinus2 - unat i)"
    by simp
qed

declare eob_bits_loop.simps [simp del]

text \<open>
  The part of \<open>decode_coeffs_luma_one_tx_block\<close> that derives \<open>eob\<close>: from the comment
  \<open>// eob_pt_* (spec)\<close>, the first statement of the branch \<open>all_zero == 0\<close>, to the check of
  \<open>eob\<close> against \<open>segEob\<close>. \<open>read_eob_extra\<close> is the block under \<open>if (eobShift0 >= 0)\<close>,
  \<open>check_seg_eob\<close> the block under the comment \<open>// Sanity check eob against segEob\<close>. The
  writes to the probe statistics \<open>st\<close> are left out.
\<close>

definition read_eob_extra ::
  "Av1SymbolDecoder \<Rightarrow> Av1TileCoeffCdfs \<Rightarrow> nat \<Rightarrow> 32 word \<Rightarrow> 32 word \<Rightarrow> 32 word \<Rightarrow>
   (string + 32 word) \<times> Av1SymbolDecoder \<times> Av1TileCoeffCdfs" where
  "read_eob_extra sd1 cdfs1 ptype txSzCtx eobPt eob0 =
     (let eobShift0 = (if 3 \<le> eobPt then sint (eobPt - 3) else - 1)
      in if 0 \<le> eobShift0 then
           let ctxIdx = eobPt - 3
           in if AV1_EOB_COEF_CONTEXTS \<le> ctxIdx
              then (Inl ''invalid eobPt for eob_extra'', sd1, cdfs1)
              else
                case av1_symbol_read_symbol sd1
                       (eob_extra cdfs1 ! unat txSzCtx ! ptype ! unat ctxIdx) 2 of
                  (Inl e, sd2, cdf') \<Rightarrow>
                    (Inl e, sd2, cdfs1\<lparr>eob_extra :=
                       list_update3 (eob_extra cdfs1) (unat txSzCtx) ptype (unat ctxIdx) cdf'\<rparr>)
                | (Inr eob_extra_sym, sd2, cdf') \<Rightarrow>
                    let cdfs2 = cdfs1\<lparr>eob_extra :=
                          list_update3 (eob_extra cdfs1) (unat txSzCtx) ptype (unat ctxIdx) cdf'\<rparr>;
                        eob1 = (if eob_extra_sym \<noteq> 0
                                then eob0 + push_bit (nat eobShift0) 1 else eob0);
                        eobPtMinus2 = (if 2 < eobPt then eobPt - 2 else 0)
                    in case eob_bits_loop sd2 eobPtMinus2 1 eob1 of
                         (Inl e, sd3) \<Rightarrow> (Inl e, sd3, cdfs2)
                       | (Inr eob, sd3) \<Rightarrow> (Inr eob, sd3, cdfs2)
         else (Inr eob0, sd1, cdfs1))"

definition check_seg_eob ::
  "32 word \<Rightarrow> 32 word \<Rightarrow> Av1SymbolDecoder \<Rightarrow> Av1TileCoeffCdfs \<Rightarrow>
   (string + 32 word) \<times> Av1SymbolDecoder \<times> Av1TileCoeffCdfs" where
  "check_seg_eob tx_size eob sd3 cdfs3 =
     (let tx_wlog2 = (ucast (kTxWidthLog2 ! unat tx_size) :: 32 word);
          tx_hlog2 = (ucast (kTxHeightLog2 ! unat tx_size) :: 32 word);
          segEob =
            (if tx_size = AV1_TX_16X64 \<or> tx_size = AV1_TX_64X16 then 512
             else let txw = push_bit (unat tx_wlog2) (1 :: 32 word);
                      txh = push_bit (unat tx_hlog2) (1 :: 32 word);
                      wh = txw * txh
                  in if wh < 1024 then wh else 1024)
      in if eob = 0 \<or> segEob < eob then (Inl ''invalid eob'', sd3, cdfs3)
         else (Inr eob, sd3, cdfs3))"

definition decode_eob ::
  "Av1SymbolDecoder \<Rightarrow> Av1TileCoeffCdfs \<Rightarrow> nat \<Rightarrow> 32 word \<Rightarrow> 32 word \<Rightarrow> 32 word \<Rightarrow>
   (string + 32 word) \<times> Av1SymbolDecoder \<times> Av1TileCoeffCdfs" where
  "decode_eob sd coeff_cdfs ptype txSzCtx tx_size tx_type =
     (if AV1_TX_SIZES_ALL \<le> tx_size then (Inl ''invalid tx_size for eob_pt'', sd, coeff_cdfs)
      else
        case read_eob_pt sd coeff_cdfs ptype tx_size tx_type of
          (Inl e, sd1, cdfs1) \<Rightarrow> (Inl e, sd1, cdfs1)
        | (Inr eob_pt_sym, sd1, cdfs1) \<Rightarrow>
            let eobPt = eob_pt_sym + 1;
                eob0 = (if eobPt < 2 then eobPt else push_bit (unat (eobPt - 2)) 1 + 1)
            in case read_eob_extra sd1 cdfs1 ptype txSzCtx eobPt eob0 of
                 (Inl e, sd3, cdfs3) \<Rightarrow> (Inl e, sd3, cdfs3)
               | (Inr eob, sd3, cdfs3) \<Rightarrow> check_seg_eob tx_size eob sd3 cdfs3)"

text \<open>
  The derivation of \<open>eob\<close> in the words of the specification. \<open>tx_dims\<close> gives the width and
  the height of each transform size, \<open>seg_eob\<close> the largest \<open>eob\<close> allowed for it, and
  \<open>eob_by_claim\<close> continues from the result \<open>pt_read\<close> of the read of the \<open>eob_pt\<close> symbol:
  \<open>eobPt\<close> is that symbol plus one; below 3 nothing more is read; from 3 on one symbol is read
  from \<open>eob_extra[txSzCtx][ptype][eobPt - 3]\<close> and then a literal of \<open>eobPt - 3\<close> bits, most
  significant bit first.
\<close>

definition tx_dims :: "(nat \<times> nat) list" where
  "tx_dims = [(4, 4), (8, 8), (16, 16), (32, 32), (64, 64), (4, 8), (8, 4), (8, 16), (16, 8),
     (16, 32), (32, 16), (32, 64), (64, 32), (4, 16), (16, 4), (8, 32), (32, 8), (16, 64), (64, 16)]"

definition seg_eob :: "nat \<Rightarrow> nat" where
  "seg_eob tx_size =
     (if tx_dims ! tx_size = (16, 64) \<or> tx_dims ! tx_size = (64, 16) then 512
      else min (fst (tx_dims ! tx_size) * snd (tx_dims ! tx_size)) 1024)"

definition eob_of_eobPt :: "nat \<Rightarrow> nat" where
  "eob_of_eobPt eobPt = (if eobPt < 2 then eobPt else 2 ^ (eobPt - 2) + 1)"

definition eob_checked ::
  "nat \<Rightarrow> nat \<Rightarrow> Av1SymbolDecoder \<Rightarrow> Av1TileCoeffCdfs \<Rightarrow>
   (string + 32 word) \<times> Av1SymbolDecoder \<times> Av1TileCoeffCdfs" where
  "eob_checked tx_size eob sd cdfs =
     (if 0 < eob \<and> eob \<le> seg_eob tx_size then (Inr (word_of_nat eob), sd, cdfs)
      else (Inl ''invalid eob'', sd, cdfs))"

definition eob_by_claim ::
  "(string + 32 word) \<times> Av1SymbolDecoder \<times> Av1TileCoeffCdfs \<Rightarrow> nat \<Rightarrow> nat \<Rightarrow> nat \<Rightarrow>
   (string + 32 word) \<times> Av1SymbolDecoder \<times> Av1TileCoeffCdfs" where
  "eob_by_claim pt_read ptype txSzCtx tx_size =
     (case pt_read of
        (Inl e, sd1, cdfs1) \<Rightarrow> (Inl e, sd1, cdfs1)
      | (Inr eob_pt_sym, sd1, cdfs1) \<Rightarrow>
          let eobPt = unat eob_pt_sym + 1
          in if eobPt < 3 then eob_checked tx_size (eob_of_eobPt eobPt) sd1 cdfs1
             else
               case av1_symbol_read_symbol sd1 (eob_extra cdfs1 ! txSzCtx ! ptype ! (eobPt - 3)) 2 of
                 (r, sd2, cdf') \<Rightarrow>
                   let cdfs2 = cdfs1\<lparr>eob_extra :=
                         list_update3 (eob_extra cdfs1) txSzCtx ptype (eobPt - 3) cdf'\<rparr>
                   in case r of
                        Inl e \<Rightarrow> (Inl e, sd2, cdfs2)
                      | Inr eob_extra_sym \<Rightarrow>
                          (case av1_symbol_read_literal sd2 (eobPt - 3) of
                             (Inl e, sd3) \<Rightarrow> (Inl e, sd3, cdfs2)
                           | (Inr bits, sd3) \<Rightarrow>
                               eob_checked tx_size
                                 (eob_of_eobPt eobPt
                                  + (if eob_extra_sym = 1 then 2 ^ (eobPt - 3) else 0) + unat bits)
                                 sd3 cdfs2))"

text \<open>
  A decoder and coefficient CDFs for an evaluation of the \<open>eob\<close> derivation: the decoder is
  the one left by the initialisation on the bytes \<open>E1 35 55 AA 80 00\<close>, and the CDFs hold what
  an 8 by 8 luma transform of class 2D reads, the \<open>eob_pt_64\<close> CDF and the \<open>eob_extra\<close> CDFs of
  \<open>txSzCtx = 1\<close>.
\<close>

definition kat_sd_eob :: Av1SymbolDecoder where
  "kat_sd_eob = \<lparr>br = \<lparr>data = [0xE1, 0x35, 0x55, 0xAA, 0x80, 0], bitpos = 15\<rparr>,
     symbol_value = 3941, symbol_range = 32768, symbol_max_bits = 33, disable_cdf_update = False\<rparr>"

definition kat_cdfs :: Av1TileCoeffCdfs where
  "kat_cdfs = \<lparr>txb_skip = [], eob_pt_16 = [], eob_pt_32 = [],
     eob_pt_64 = [[[4681, 9362, 14043, 18724, 23405, 28086, 32768, 0]]],
     eob_pt_128 = [], eob_pt_256 = [], eob_pt_512 = [], eob_pt_1024 = [],
     eob_extra = [[], [replicate 9 [16384, 32768, 0]]]\<rparr>"

subsection \<open>The coefficient decoder of a transform block\<close>

text \<open>
  The coefficient contexts of a tile, \<open>Av1TileCoeffCtx\<close>: per plane an array of levels and of
  DC categories above (indexed by column) and to the left (indexed by row), each a pointer that
  may be null (\<open>None\<close>), and the number of columns and rows of the plane.
\<close>

record Av1TileCoeffCtx =
  above_level :: "8 word list option list"
  left_level :: "8 word list option list"
  above_dc :: "8 word list option list"
  left_dc :: "8 word list option list"
  cols :: "32 word list"
  rows :: "32 word list"

text \<open>
  The loop \<open>for (k = 0; k < n; k++)\<close> over \<open>uint32_t\<close> that updates an accumulator.
\<close>

function for_loop :: "32 word \<Rightarrow> 32 word \<Rightarrow> (32 word \<Rightarrow> 'a \<Rightarrow> 'a) \<Rightarrow> 'a \<Rightarrow> 'a" where
  "for_loop i n body acc = (if i < n then for_loop (i + 1) n body (body i acc) else acc)"
  by pat_completeness auto
termination
proof (relation "measure (\<lambda>(i, n, body, acc). unat n - unat i)")
  show "wf (measure (\<lambda>(i :: 32 word, n :: 32 word, body :: 32 word \<Rightarrow> 'a \<Rightarrow> 'a, acc :: 'a). unat n - unat i))"
    by simp
next
  fix i n :: "32 word" and body :: "32 word \<Rightarrow> 'a \<Rightarrow> 'a" and acc :: 'a
  assume "i < n"
  then have lt: "unat i < unat n" by (simp add: word_less_nat_alt)
  have b: "unat n < 2 ^ LENGTH(32)" by (rule unsigned_less)
  from lt b have "unat i + 1 < 2 ^ LENGTH(32)" by linarith
  then have "unat i + unat (1 :: 32 word) < 2 ^ LENGTH(32)" by simp
  then have "unat (i + 1) = unat i + unat (1 :: 32 word)" by (simp only: unat_add_lem)
  then have "unat (i + 1) = unat i + 1" by simp
  with lt show "((i + 1, n, body, body i acc), (i, n, body, acc)) \<in>
      measure (\<lambda>(i, n, body, acc). unat n - unat i)"
    by simp
qed

declare for_loop.simps [simp del]

definition txb_skip_ctx ::
  "Av1TileCoeffCtx \<Rightarrow> 32 word \<Rightarrow> 32 word \<Rightarrow> 32 word \<Rightarrow> 32 word \<Rightarrow> 32 word \<Rightarrow> 32 word \<Rightarrow> 32 word \<Rightarrow>
   32 word \<Rightarrow> 32 word" where
  "txb_skip_ctx ctx plane x4 y4 w4 h4 bw_px bh_px tx_size =
     (if AV1_MAX_PLANES \<le> plane \<or> AV1_TX_SIZES_ALL \<le> tx_size then 0
      else
        let tx_w_px = push_bit (unat (kTxWidthLog2 ! unat tx_size)) (1 :: 32 word);
            tx_h_px = push_bit (unat (kTxHeightLog2 ! unat tx_size)) (1 :: 32 word);
            above_level = above_level ctx ! unat plane;
            left_level = left_level ctx ! unat plane;
            above_dc = above_dc ctx ! unat plane;
            left_dc = left_dc ctx ! unat plane;
            cols = cols ctx ! unat plane;
            rows = rows ctx ! unat plane
        in if plane = 0 then
             let top0 = for_loop 0 w4
                   (\<lambda>k top. let x = x4 + k
                      in case above_level of
                           None \<Rightarrow> top
                         | Some al \<Rightarrow>
                             if x < cols
                             then (if top < ucast (al ! unat x) then ucast (al ! unat x) else top)
                             else top) (0 :: 32 word);
                 left0 = for_loop 0 h4
                   (\<lambda>k left. let y = y4 + k
                      in case left_level of
                           None \<Rightarrow> left
                         | Some ll \<Rightarrow>
                             if y < rows
                             then (if left < ucast (ll ! unat y) then ucast (ll ! unat y) else left)
                             else left) (0 :: 32 word);
                 top = (if 255 < top0 then 255 else top0);
                 left = (if 255 < left0 then 255 else left0)
             in if bw_px = tx_w_px \<and> bh_px = tx_h_px then 0
                else if top = 0 \<and> left = 0 then 1
                else if top = 0 \<or> left = 0 then 2 + (if 3 < top \<or> 3 < left then 1 else 0)
                else if top \<le> 3 \<and> left \<le> 3 then 4
                else if top \<le> 3 \<or> left \<le> 3 then 5
                else 6
           else
             let above = for_loop 0 w4
                   (\<lambda>i above. let x = x4 + i
                      in if x < cols
                         then let a1 = (case above_level of None \<Rightarrow> above
                                          | Some al \<Rightarrow> above OR ucast (al ! unat x))
                              in (case above_dc of None \<Rightarrow> a1 | Some ad \<Rightarrow> a1 OR ucast (ad ! unat x))
                         else above) (0 :: 32 word);
                 left = for_loop 0 h4
                   (\<lambda>i left. let y = y4 + i
                      in if y < rows
                         then let l1 = (case left_level of None \<Rightarrow> left
                                          | Some ll \<Rightarrow> left OR ucast (ll ! unat y))
                              in (case left_dc of None \<Rightarrow> l1 | Some ld \<Rightarrow> l1 OR ucast (ld ! unat y))
                         else left) (0 :: 32 word);
                 ctxv = (if above \<noteq> 0 then 1 else 0) + (if left \<noteq> 0 then 1 else 0) + 7
             in if tx_w_px * tx_h_px < bw_px * bh_px then ctxv + 3 else ctxv)"

text \<open>
  \<open>decode_coeffs_luma_one_tx_block\<close>, the decoder of the coefficients of one transform block.
  \<open>read_all_zero\<close> is its beginning, up to the read of the first symbol, \<open>all_zero\<close>. What the
  function does after the check of \<open>eob\<close> (the read of the coefficients and the update of the
  contexts, inside the branch \<open>all_zero == 0\<close>) is the parameter \<open>rest\<close>, a function of \<open>eob\<close>
  and the state: every statement about the model holds whatever that part does. The result
  is the returned flag (an error message, or \<open>()\<close> for \<open>true\<close>) and the decoder, the CDFs and
  the coefficient contexts as the call leaves them. The writes to the probe statistics \<open>st\<close>
  and to \<open>out_stop_now\<close> are left out.
\<close>

definition read_all_zero ::
  "Av1SymbolDecoder \<Rightarrow> Av1TileCoeffCdfs \<Rightarrow> Av1TileCoeffCtx \<Rightarrow> 32 word \<Rightarrow> 32 word \<Rightarrow> 32 word \<Rightarrow> 32 word \<Rightarrow>
   32 word \<Rightarrow> 32 word \<Rightarrow> (string + 32 word) \<times> Av1SymbolDecoder \<times> Av1TileCoeffCdfs" where
  "read_all_zero sd coeff_cdfs coeff_ctx plane x4 y4 bw_px bh_px tx_size =
     (let txSzCtx = tx_sz_ctx_from_tx_size tx_size;
          w4 = push_bit (unat ((ucast (kTxWidthLog2 ! unat tx_size) :: 32 word) - 2)) (1 :: 32 word);
          h4 = push_bit (unat ((ucast (kTxHeightLog2 ! unat tx_size) :: 32 word) - 2)) (1 :: 32 word);
          ctx = txb_skip_ctx coeff_ctx plane x4 y4 w4 h4 bw_px bh_px tx_size
      in case av1_symbol_read_symbol sd (txb_skip coeff_cdfs ! unat txSzCtx ! unat ctx) 2 of
           (r, sd1, cdf') \<Rightarrow>
             (r, sd1, coeff_cdfs\<lparr>txb_skip :=
                list_update2 (txb_skip coeff_cdfs) (unat txSzCtx) (unat ctx) cdf'\<rparr>))"

definition decode_coeffs_luma_one_tx_block ::
  "(32 word \<Rightarrow> Av1SymbolDecoder \<Rightarrow> Av1TileCoeffCdfs \<Rightarrow> Av1TileCoeffCtx \<Rightarrow>
      (string + unit) \<times> Av1SymbolDecoder \<times> Av1TileCoeffCdfs \<times> Av1TileCoeffCtx) \<Rightarrow>
   Av1SymbolDecoder \<Rightarrow> Av1TileCoeffCdfs \<Rightarrow> Av1TileCoeffCtx \<Rightarrow> 32 word \<Rightarrow> 32 word \<Rightarrow> 32 word \<Rightarrow> 32 word \<Rightarrow>
   32 word \<Rightarrow> 32 word \<Rightarrow> 32 word \<Rightarrow>
   (string + unit) \<times> Av1SymbolDecoder \<times> Av1TileCoeffCdfs \<times> Av1TileCoeffCtx" where
  "decode_coeffs_luma_one_tx_block rest sd coeff_cdfs coeff_ctx plane x4 y4 bw_px bh_px tx_size tx_type =
     (let ptype = (if plane = 0 then 0 else 1);
          txSzCtx = tx_sz_ctx_from_tx_size tx_size
      in case read_all_zero sd coeff_cdfs coeff_ctx plane x4 y4 bw_px bh_px tx_size of
           (Inl e, sd1, cdfs1) \<Rightarrow> (Inl e, sd1, cdfs1, coeff_ctx)
         | (Inr all_zero, sd1, cdfs1) \<Rightarrow>
             if all_zero = 0 then
               (case decode_eob sd1 cdfs1 ptype txSzCtx tx_size tx_type of
                  (Inl e, sd2, cdfs2) \<Rightarrow> (Inl e, sd2, cdfs2, coeff_ctx)
                | (Inr eob, sd2, cdfs2) \<Rightarrow> rest eob sd2 cdfs2 coeff_ctx)
             else (Inr (), sd1, cdfs1, coeff_ctx))"

text \<open>
  A transform block whose \<open>all_zero\<close> symbol decodes to 1, below a block that had coefficients.
  The plane is 2 by 2 units of 4 by 4 pixels; the transform blocks at (column 0, row 0) and
  (column 1, row 0) have left the levels 5 and 3 and the DC categories 1 and 2 in the context
  arrays, and the call decodes the 4 by 4 transform block at column 0, row 1 of the 8 by 8
  block. The decoder is the one left by the initialisation on the bytes \<open>FF FF\<close>.
\<close>

definition kat_sd_ones :: Av1SymbolDecoder where
  "kat_sd_ones = \<lparr>br = \<lparr>data = [0xFF, 0xFF], bitpos = 15\<rparr>, symbol_value = 0,
     symbol_range = 32768, symbol_max_bits = 1, disable_cdf_update = False\<rparr>"

definition kat_sd_ones_after :: Av1SymbolDecoder where
  "kat_sd_ones_after = \<lparr>br = \<lparr>data = [0xFF, 0xFF], bitpos = 16\<rparr>, symbol_value = 0,
     symbol_range = 32776, symbol_max_bits = 0, disable_cdf_update = False\<rparr>"

definition kat_cdfs_skip :: Av1TileCoeffCdfs where
  "kat_cdfs_skip = \<lparr>txb_skip = [replicate 13 [16384, 32768, 0]], eob_pt_16 = [], eob_pt_32 = [],
     eob_pt_64 = [], eob_pt_128 = [], eob_pt_256 = [], eob_pt_512 = [], eob_pt_1024 = [],
     eob_extra = []\<rparr>"

definition kat_cdfs_skip_after :: Av1TileCoeffCdfs where
  "kat_cdfs_skip_after = kat_cdfs_skip\<lparr>txb_skip :=
     [(replicate 13 [16384, 32768, 0])[3 := [15360, 32768, 1]]]\<rparr>"

definition kat_coeff_ctx :: Av1TileCoeffCtx where
  "kat_coeff_ctx = \<lparr>above_level = [Some [5, 3], None, None], left_level = [Some [3, 0], None, None],
     above_dc = [Some [1, 2], None, None], left_dc = [Some [2, 0], None, None],
     cols = [2, 0, 0], rows = [2, 0, 0]\<rparr>"

subsection \<open>The block decoder (decode\_block\_stub in av1\_decode\_tile.c)\<close>

text \<open>
  The grid of mode-info units (4 by 4 luma pixels) of a tile, an array of \<open>Av1MiSize\<close> indexed
  by \<open>row * mi_cols + col\<close>, and the mode CDFs of a tile, \<open>Av1TileSkipCdfs\<close>, of which the record
  has the two arrays that a block reads first. The fields carry a prefix or a suffix because
  \<open>skip\<close> and \<open>y_mode\<close> name a field in both structures (and local variables).
\<close>

record Av1MiSize =
  mi_wlog2 :: "8 word"
  mi_hlog2 :: "8 word"
  mi_skip :: "8 word"
  mi_y_mode :: "8 word"
  mi_palette_y_size :: "8 word"
  mi_palette_uv_size :: "8 word"
  mi_segment_id :: "8 word"

record Av1TileSkipCdfs =
  skip_cdfs :: "16 word list list"
  y_mode_cdfs :: "16 word list list"

definition AV1_SKIP_CONTEXTS :: "32 word" where "AV1_SKIP_CONTEXTS = 3"
definition AV1_INTRA_MODES :: nat where "AV1_INTRA_MODES = 13"
definition AV1_Y_MODE_CONTEXTS :: "32 word" where "AV1_Y_MODE_CONTEXTS = 4"

definition mi_index :: "32 word \<Rightarrow> 32 word \<Rightarrow> 32 word \<Rightarrow> 32 word" where
  "mi_index row col stride = row * stride + col"

definition skip_ctx_from_mi_grid ::
  "Av1MiSize list \<Rightarrow> 32 word \<Rightarrow> 32 word \<Rightarrow> 32 word \<Rightarrow> 32 word \<Rightarrow> 32 word" where
  "skip_ctx_from_mi_grid mi_grid mi_rows mi_cols r c =
     (let above = (if 0 < r \<and> c < mi_cols
                   then (if mi_skip (mi_grid ! unat (mi_index (r - 1) c mi_cols)) \<noteq> 0 then 1 else 0)
                   else 0 :: 32 word);
          left = (if 0 < c \<and> r < mi_rows
                  then (if mi_skip (mi_grid ! unat (mi_index r (c - 1) mi_cols)) \<noteq> 0 then 1 else 0)
                  else 0 :: 32 word);
          ctx = above + left
      in if AV1_SKIP_CONTEXTS \<le> ctx then AV1_SKIP_CONTEXTS - 1 else ctx)"

definition mi_set_skip_block ::
  "Av1MiSize list \<Rightarrow> 32 word \<Rightarrow> 32 word \<Rightarrow> 32 word \<Rightarrow> 32 word \<Rightarrow> 32 word \<Rightarrow> 32 word \<Rightarrow> 32 word \<Rightarrow>
   Av1MiSize list" where
  "mi_set_skip_block mi_grid mi_rows mi_cols r c wlog2 hlog2 skip =
     (let w = push_bit (unat wlog2) (1 :: 32 word);
          h = push_bit (unat hlog2) (1 :: 32 word)
      in for_loop 0 h (\<lambda>rr g1.
           for_loop 0 w (\<lambda>cc g.
             let y = r + rr; x = c + cc
             in if y < mi_rows \<and> x < mi_cols
                then g[unat (mi_index y x mi_cols) :=
                       (g ! unat (mi_index y x mi_cols))\<lparr>mi_skip := (if skip \<noteq> 0 then 1 else 0)\<rparr>]
                else g) g1) mi_grid)"

definition mi_set_y_mode_block ::
  "Av1MiSize list \<Rightarrow> 32 word \<Rightarrow> 32 word \<Rightarrow> 32 word \<Rightarrow> 32 word \<Rightarrow> 32 word \<Rightarrow> 32 word \<Rightarrow> 32 word \<Rightarrow>
   Av1MiSize list" where
  "mi_set_y_mode_block mi_grid mi_rows mi_cols r c wlog2 hlog2 y_mode =
     (let w = push_bit (unat wlog2) (1 :: 32 word);
          h = push_bit (unat hlog2) (1 :: 32 word)
      in for_loop 0 h (\<lambda>rr g1.
           for_loop 0 w (\<lambda>cc g.
             let y = r + rr; x = c + cc
             in if y < mi_rows \<and> x < mi_cols
                then g[unat (mi_index y x mi_cols) :=
                       (g ! unat (mi_index y x mi_cols))\<lparr>mi_y_mode := ucast y_mode\<rparr>]
                else g) g1) mi_grid)"

definition size_group_from_wlog2_hlog2 :: "32 word \<Rightarrow> 32 word \<Rightarrow> 32 word" where
  "size_group_from_wlog2_hlog2 wlog2 hlog2 =
     (if (wlog2 = 0 \<and> hlog2 = 0) \<or> (wlog2 = 0 \<and> hlog2 = 1) \<or> (wlog2 = 1 \<and> hlog2 = 0) \<or>
         (wlog2 = 0 \<and> hlog2 = 2) \<or> (wlog2 = 2 \<and> hlog2 = 0) then 0
      else if (wlog2 = 1 \<and> hlog2 = 1) \<or> (wlog2 = 1 \<and> hlog2 = 2) \<or> (wlog2 = 2 \<and> hlog2 = 1) \<or>
         (wlog2 = 1 \<and> hlog2 = 3) \<or> (wlog2 = 3 \<and> hlog2 = 1) then 1
      else if (wlog2 = 2 \<and> hlog2 = 2) \<or> (wlog2 = 2 \<and> hlog2 = 3) \<or> (wlog2 = 3 \<and> hlog2 = 2) \<or>
         (wlog2 = 2 \<and> hlog2 = 4) \<or> (wlog2 = 4 \<and> hlog2 = 2) then 2
      else 3)"

definition intra_directional_index :: "32 word \<Rightarrow> 32 word option" where
  "intra_directional_index intra_mode =
     (if intra_mode = 1 then Some 0 else if intra_mode = 2 then Some 1
      else if intra_mode = 3 then Some 2 else if intra_mode = 4 then Some 3
      else if intra_mode = 5 then Some 4 else if intra_mode = 6 then Some 5
      else if intra_mode = 7 then Some 6 else if intra_mode = 8 then Some 7
      else None)"

text \<open>
  \<open>decode_block_stub\<close>, the decoder of one leaf block, in the default probe mode
  (\<open>params->probe_try_exit_symbol == 0\<close>, where none of the statements under that flag runs)
  and with all its pointer arguments non-null. \<open>read_skip_and_y_mode\<close> is the function from
  its start to the statement \<open>if (skip) { goto block_done; }\<close>: it reads \<open>skip\<close> and \<open>y_mode\<close>
  and records them in the grid. The statements from there to the label \<open>block_done\<close> (the
  angle deltas, \<open>uv_mode\<close>, CFL, palette, filter-intra, the transform size and type, and the
  coefficients) are the parameter \<open>rest\<close>, a function of \<open>y_mode\<close> and the state: every
  statement about the model holds whatever that part does. The result is the returned flag
  and the decoder, the mode CDFs, the coefficient CDFs and contexts and the grid as the call
  leaves them; the writes to the probe statistics \<open>st\<close> and to \<open>out_stop\<close>, which is all
  that happens after \<open>block_done\<close>, are left out. The caller passes a block inside the grid
  and \<open>wlog2\<close>, \<open>hlog2\<close> below 32 (the shifts \<open>1u << wlog2\<close> are undefined in C from 32 on).
\<close>

definition read_skip_and_y_mode ::
  "Av1SymbolDecoder \<Rightarrow> Av1TileSkipCdfs \<Rightarrow> Av1MiSize list \<Rightarrow> 32 word \<Rightarrow> 32 word \<Rightarrow> 32 word \<Rightarrow> 32 word \<Rightarrow>
   32 word \<Rightarrow> 32 word \<Rightarrow>
   (string + 32 word \<times> 32 word) \<times> Av1SymbolDecoder \<times> Av1TileSkipCdfs \<times> Av1MiSize list" where
  "read_skip_and_y_mode sd mode_cdfs mi_grid mi_rows mi_cols r c wlog2 hlog2 =
     (let ctx = skip_ctx_from_mi_grid mi_grid mi_rows mi_cols r c
      in case av1_symbol_read_symbol sd (skip_cdfs mode_cdfs ! unat ctx) 2 of
           (Inl e, sd1, cdf1) \<Rightarrow>
             (Inl e, sd1, mode_cdfs\<lparr>skip_cdfs := (skip_cdfs mode_cdfs)[unat ctx := cdf1]\<rparr>, mi_grid)
         | (Inr skip, sd1, cdf1) \<Rightarrow>
             let mode_cdfs1 = mode_cdfs\<lparr>skip_cdfs := (skip_cdfs mode_cdfs)[unat ctx := cdf1]\<rparr>;
                 mi_grid1 = mi_set_skip_block mi_grid mi_rows mi_cols r c wlog2 hlog2 skip;
                 y_mode_ctx0 = size_group_from_wlog2_hlog2 wlog2 hlog2;
                 y_mode_ctx = (if AV1_Y_MODE_CONTEXTS \<le> y_mode_ctx0 then AV1_Y_MODE_CONTEXTS - 1
                               else y_mode_ctx0)
             in case av1_symbol_read_symbol sd1 (y_mode_cdfs mode_cdfs1 ! unat y_mode_ctx) AV1_INTRA_MODES of
                  (Inl e, sd2, cdf2) \<Rightarrow>
                    (Inl e, sd2,
                     mode_cdfs1\<lparr>y_mode_cdfs := (y_mode_cdfs mode_cdfs1)[unat y_mode_ctx := cdf2]\<rparr>,
                     mi_grid1)
                | (Inr y_mode, sd2, cdf2) \<Rightarrow>
                    (Inr (skip, y_mode), sd2,
                     mode_cdfs1\<lparr>y_mode_cdfs := (y_mode_cdfs mode_cdfs1)[unat y_mode_ctx := cdf2]\<rparr>,
                     mi_set_y_mode_block mi_grid1 mi_rows mi_cols r c wlog2 hlog2 y_mode))"

definition decode_block_stub ::
  "(32 word \<Rightarrow> Av1SymbolDecoder \<Rightarrow> Av1TileSkipCdfs \<Rightarrow> Av1TileCoeffCdfs \<Rightarrow> Av1TileCoeffCtx \<Rightarrow>
      Av1MiSize list \<Rightarrow>
      (string + unit) \<times> Av1SymbolDecoder \<times> Av1TileSkipCdfs \<times> Av1TileCoeffCdfs \<times> Av1TileCoeffCtx \<times>
      Av1MiSize list) \<Rightarrow>
   Av1SymbolDecoder \<Rightarrow> Av1TileSkipCdfs \<Rightarrow> Av1TileCoeffCdfs \<Rightarrow> Av1TileCoeffCtx \<Rightarrow> Av1MiSize list \<Rightarrow>
   32 word \<Rightarrow> 32 word \<Rightarrow> 32 word \<Rightarrow> 32 word \<Rightarrow> 32 word \<Rightarrow> 32 word \<Rightarrow>
   (string + unit) \<times> Av1SymbolDecoder \<times> Av1TileSkipCdfs \<times> Av1TileCoeffCdfs \<times> Av1TileCoeffCtx \<times>
   Av1MiSize list" where
  "decode_block_stub rest sd mode_cdfs coeff_cdfs coeff_ctx mi_grid mi_rows mi_cols r c wlog2 hlog2 =
     (case read_skip_and_y_mode sd mode_cdfs mi_grid mi_rows mi_cols r c wlog2 hlog2 of
        (Inl e, sd2, mode_cdfs2, mi_grid2) \<Rightarrow> (Inl e, sd2, mode_cdfs2, coeff_cdfs, coeff_ctx, mi_grid2)
      | (Inr (skip, y_mode), sd2, mode_cdfs2, mi_grid2) \<Rightarrow>
          if skip \<noteq> 0 then (Inr (), sd2, mode_cdfs2, coeff_cdfs, coeff_ctx, mi_grid2)
          else rest y_mode sd2 mode_cdfs2 coeff_cdfs coeff_ctx mi_grid2)"

text \<open>
  The first block of a tile of 8 by 8 luma pixels (a grid of 2 by 2 units, all fields 0):
  the block at row 0, column 0 with \<open>wlog2 = hlog2 = 1\<close>, the skip and y-mode CDFs at their
  defaults (\<open>kDefaultSkipCdf\<close>, \<open>kDefaultYModeCdf\<close>), and the symbol decoder initialised on
  the bytes FC 7A 00 00 00 00 00 00. \<open>kat_sd_block_after\<close>, \<open>kat_mode_cdfs_after\<close> and
  \<open>kat_mi_grid_after\<close> are the decoder, the CDFs and the grid after the reads of \<open>skip\<close> (1,
  five bits of renormalisation) and \<open>y_mode\<close> (1, \<open>V_PRED\<close>, five more bits).
\<close>

definition kat_sd_block :: Av1SymbolDecoder where
  "kat_sd_block = \<lparr>br = \<lparr>data = [252, 122, 0, 0, 0, 0, 0, 0], bitpos = 15\<rparr>, symbol_value = 450,
     symbol_range = 32768, symbol_max_bits = 49, disable_cdf_update = False\<rparr>"

definition kat_sd_block_after :: Av1SymbolDecoder where
  "kat_sd_block_after = \<lparr>br = \<lparr>data = [252, 122, 0, 0, 0, 0, 0, 0], bitpos = 25\<rparr>,
     symbol_value = 23039, symbol_range = 41472, symbol_max_bits = 39, disable_cdf_update = False\<rparr>"

definition kDefaultSkipCdf :: "16 word list list" where
  "kDefaultSkipCdf = [[31671, 32768, 0], [16515, 32768, 0], [4576, 32768, 0]]"

definition kDefaultYModeCdf :: "16 word list list" where
  "kDefaultYModeCdf =
     [[22801, 23489, 24293, 24756, 25601, 26123, 26606, 27418, 27945, 29228, 29685, 30349, 32768, 0],
      [18673, 19845, 22631, 23318, 23950, 24649, 25527, 27364, 28152, 29701, 29984, 30852, 32768, 0],
      [19770, 20979, 23396, 23939, 24241, 24654, 25136, 27073, 27830, 29360, 29730, 30659, 32768, 0],
      [20155, 21301, 22838, 23178, 23261, 23533, 23703, 24804, 25352, 26575, 27016, 28049, 32768, 0]]"

definition kat_mode_cdfs :: Av1TileSkipCdfs where
  "kat_mode_cdfs = \<lparr>skip_cdfs = kDefaultSkipCdf, y_mode_cdfs = kDefaultYModeCdf\<rparr>"

definition kat_mode_cdfs_after :: Av1TileSkipCdfs where
  "kat_mode_cdfs_after =
     \<lparr>skip_cdfs = [[29692, 32768, 1], [16515, 32768, 0], [4576, 32768, 0]],
      y_mode_cdfs =
        [[22801, 23489, 24293, 24756, 25601, 26123, 26606, 27418, 27945, 29228, 29685, 30349, 32768, 0],
         [18090, 20248, 22947, 23613, 24225, 24902, 25753, 27532, 28296, 29796, 30071, 30911, 32768, 1],
         [19770, 20979, 23396, 23939, 24241, 24654, 25136, 27073, 27830, 29360, 29730, 30659, 32768, 0],
         [20155, 21301, 22838, 23178, 23261, 23533, 23703, 24804, 25352, 26575, 27016, 28049, 32768, 0]]\<rparr>"

definition kat_mi :: "8 word \<Rightarrow> 8 word \<Rightarrow> Av1MiSize" where
  "kat_mi s m = \<lparr>mi_wlog2 = 0, mi_hlog2 = 0, mi_skip = s, mi_y_mode = m, mi_palette_y_size = 0,
     mi_palette_uv_size = 0, mi_segment_id = 0\<rparr>"

definition kat_mi_grid :: "Av1MiSize list" where
  "kat_mi_grid = [kat_mi 0 0, kat_mi 0 0, kat_mi 0 0, kat_mi 0 0]"

definition kat_mi_grid_after :: "Av1MiSize list" where
  "kat_mi_grid_after = [kat_mi 1 1, kat_mi 1 1, kat_mi 1 1, kat_mi 1 1]"

section \<open>Proofs\<close>

subsection \<open>Floor of the binary logarithm\<close>

lemma flog2_bounds: "0 < n \<Longrightarrow> 2 ^ flog2 n \<le> n \<and> n < 2 ^ Suc (flog2 n)"
proof (induction n rule: flog2.induct)
  case (1 n)
  show ?case
  proof (cases "n < 2")
    case True
    with 1(2) show ?thesis by (simp add: flog2.simps [of n])
  next
    case False
    then have "0 < n div 2" by simp
    with 1(1) False have ih: "2 ^ flog2 (n div 2) \<le> n div 2 \<and> n div 2 < 2 ^ Suc (flog2 (n div 2))"
      by simp
    have eq: "flog2 n = Suc (flog2 (n div 2))" using False by (simp add: flog2.simps [of n])
    from ih show ?thesis unfolding eq by auto
  qed
qed

lemma flog2_le: "n < 2 ^ k \<Longrightarrow> 0 < k \<Longrightarrow> flog2 n < k"
proof (cases "0 < n")
  case True
  assume a: "n < 2 ^ k"
  from flog2_bounds [OF True] have "2 ^ flog2 n \<le> n" by simp
  from this a have "(2::nat) ^ flog2 n < 2 ^ k" by (rule le_less_trans)
  then show ?thesis by (simp only: power_strict_increasing_iff one_less_numeral_iff semiring_norm)
next
  case False
  assume "0 < k"
  with False show ?thesis by (simp add: flog2.simps [of 0])
qed

lemma floor_log2_loop_unat:
  "unat r + flog2 (unat n) < 2 ^ 32 \<Longrightarrow> unat (floor_log2_loop n r) = unat r + flog2 (unat n)"
proof (induction n r rule: floor_log2_loop.induct)
  case (1 n r)
  show ?case
  proof (cases "2 \<le> n")
    case True
    then have n2: "\<not> unat n < 2" by (simp add: word_le_nat_alt)
    have d: "unat (drop_bit 1 n) = unat n div 2" by (simp add: drop_bit_eq_div unat_div)
    have fl: "flog2 (unat n) = Suc (flog2 (unat n div 2))" using n2 by (simp add: flog2.simps [of "unat n"])
    from 1(2) fl have b: "unat r + 1 < 2 ^ 32" by simp
    then have "unat r + unat (1 :: 32 word) < 2 ^ LENGTH(32)" by simp
    then have "unat (r + 1) = unat r + unat (1 :: 32 word)" by (simp only: unat_add_lem)
    then have r1: "unat (r + 1) = unat r + 1" by simp
    from 1(2) fl r1 d have "unat (r + 1) + flog2 (unat (drop_bit 1 n)) < 2 ^ 32" by simp
    from 1(1) [OF True this] show ?thesis
      using True fl r1 d by (simp add: floor_log2_loop.simps [of n r])
  next
    case False
    then have "unat n < 2" by (simp add: word_le_nat_alt not_le)
    then have "flog2 (unat n) = 0" by (simp add: flog2.simps [of "unat n"])
    with False show ?thesis by (simp add: floor_log2_loop.simps [of n r])
  qed
qed

lemma floor_log2_u32_unat: "unat (floor_log2_u32 n) = flog2 (unat n)"
proof -
  have "unat n < 2 ^ 32" using unsigned_less [of n] by simp
  then have "flog2 (unat n) < 32" by (rule flog2_le) simp
  then have "unat (0 :: 32 word) + flog2 (unat n) < 2 ^ 32" by simp
  from floor_log2_loop_unat [OF this] show ?thesis by (simp add: floor_log2_u32_def)
qed

subsection \<open>Renormalisation and the CDF walk\<close>

lemma renorm_bits_le:
  fixes r :: "32 word"
  assumes nb: "\<not> 15 < 15 - floor_log2_u32 r"
  shows "flog2 (unat r) \<le> 15 \<and> unat (15 - floor_log2_u32 r) = 15 - flog2 (unat r)"
proof -
  let ?k = "flog2 (unat r)"
  have u: "unat (floor_log2_u32 r) = ?k" by (rule floor_log2_u32_unat)
  have "unat r < 2 ^ 32" using unsigned_less [of r] by simp
  then have k32: "?k < 32" by (rule flog2_le) simp
  have s: "unat (15 - floor_log2_u32 r) =
      (if ?k \<le> 15 then 15 - ?k else 15 + 2 ^ 32 - ?k)"
    using u by (simp add: unat_sub_if_size word_size)
  show ?thesis
  proof (cases "?k \<le> 15")
    case True
    with s show ?thesis by simp
  next
    case False
    with s k32 have "15 < unat (15 - floor_log2_u32 r)" by simp
    then have "15 < 15 - floor_log2_u32 r" by (simp add: word_less_nat_alt)
    with nb show ?thesis by simp
  qed
qed

lemma renorm_range:
  fixes r :: "32 word"
  assumes nz: "r \<noteq> 0" and nb: "\<not> 15 < 15 - floor_log2_u32 r"
  shows "2 ^ 15 \<le> push_bit (unat (15 - floor_log2_u32 r)) r \<and>
         push_bit (unat (15 - floor_log2_u32 r)) r < 2 ^ 16"
proof -
  let ?k = "flog2 (unat r)"
  from renorm_bits_le [OF nb] have k15: "?k \<le> 15" and b: "unat (15 - floor_log2_u32 r) = 15 - ?k"
    by simp_all
  from nz have "0 < unat r" by (simp add: unat_gt_0)
  from flog2_bounds [OF this] have lo: "2 ^ ?k \<le> unat r" and hi: "unat r < 2 ^ Suc ?k" by simp_all
  have p: "(2::nat) ^ ?k * 2 ^ (15 - ?k) = 2 ^ 15" using k15 by (simp flip: power_add)
  have q: "(2::nat) ^ Suc ?k * 2 ^ (15 - ?k) = 2 ^ 16" using k15 by (simp flip: power_add)
  from lo have lo': "2 ^ 15 \<le> unat r * 2 ^ (15 - ?k)"
    using p mult_le_mono1 [of "2 ^ ?k" "unat r" "2 ^ (15 - ?k)"] by simp
  from hi have "unat r * 2 ^ (15 - ?k) < 2 ^ Suc ?k * 2 ^ (15 - ?k)"
    by (rule mult_less_mono1) simp
  with q have hi': "unat r * 2 ^ (15 - ?k) < 2 ^ 16" by (simp only:)
  have "unat (push_bit (15 - ?k) r) = take_bit LENGTH(32) (push_bit (15 - ?k) (unat r))"
    by (rule unsigned_push_bit_eq)
  then have "unat (push_bit (15 - ?k) r) = (unat r * 2 ^ (15 - ?k)) mod 2 ^ 32"
    by (simp only: push_bit_eq_mult take_bit_eq_mod len_num1 len_bit0 mult_numeral_1_right mult_numeral_1 semiring_norm
          numeral_times_numeral)
  with hi' have v: "unat (push_bit (15 - ?k) r) = unat r * 2 ^ (15 - ?k)" by simp
  show ?thesis
    unfolding b using v lo' hi' by (simp add: word_le_nat_alt word_less_nat_alt)
qed

lemma cdf_threshold_last:
  assumes "1 \<le> n" and "cdf ! (n - 1) = 2 ^ 15"
  shows "cdf_threshold rng cdf n (n - 1) = 0"
  using assms by (simp add: cdf_threshold_def)

lemma cdf_walk_total:
  assumes "symbol < n" and "cdf ! (n - 1) = 2 ^ 15"
  shows "\<exists>s prev cur. cdf_walk rng val cdf n symbol c = Some (s, prev, cur) \<and> symbol \<le> s \<and> s < n \<and> cur \<le> val
      \<and> cur = cdf_threshold rng cdf n s \<and> (symbol < s \<longrightarrow> prev = cdf_threshold rng cdf n (s - 1) \<and> val < prev)
      \<and> (s = symbol \<longrightarrow> prev = c)"
  using assms
proof (induction m \<equiv> "n - symbol" arbitrary: symbol c)
  case 0
  then show ?case by simp
next
  case (Suc m)
  let ?t = "cdf_threshold rng cdf n symbol"
  have unf: "cdf_walk rng val cdf n symbol c =
      (if ?t \<le> val then Some (symbol, c, ?t) else cdf_walk rng val cdf n (Suc symbol) ?t)"
    using Suc.prems(1) by (subst cdf_walk.simps) (simp add: Let_def)
  show ?case
  proof (cases "?t \<le> val")
    case True
    then show ?thesis unfolding unf using Suc.prems(1) by simp
  next
    case False
    have "symbol \<noteq> n - 1"
    proof
      assume "symbol = n - 1"
      with Suc.prems have "?t = 0" using cdf_threshold_last [of n cdf rng] by simp
      with False show False by simp
    qed
    with Suc.prems(1) have lt: "Suc symbol < n" by simp
    from Suc.hyps(2) have m: "m = n - Suc symbol" by simp
    from Suc.hyps(1) [OF m lt Suc.prems(2), of ?t]
    obtain s prev c' where
      w: "cdf_walk rng val cdf n (Suc symbol) ?t = Some (s, prev, c')" and
      b1: "Suc symbol \<le> s" and b2: "s < n" and b3: "c' \<le> val" and b4: "c' = cdf_threshold rng cdf n s" and
      b5: "Suc symbol < s \<longrightarrow> prev = cdf_threshold rng cdf n (s - 1) \<and> val < prev" and
      b6: "s = Suc symbol \<longrightarrow> prev = ?t"
      by blast
    have pv: "prev = cdf_threshold rng cdf n (s - 1) \<and> val < prev"
    proof (cases "s = Suc symbol")
      case True
      with b6 False show ?thesis by simp
    next
      case False
      with b1 have "Suc symbol < s" by simp
      with b5 show ?thesis by blast
    qed
    have "cdf_walk rng val cdf n symbol c = Some (s, prev, c')"
      unfolding unf using False w by simp
    moreover have "symbol \<le> s" "symbol < s" "s \<noteq> symbol" using b1 by simp_all
    ultimately show ?thesis using b2 b3 b4 pv by blast
  qed
qed

subsection \<open>Known-answer evaluations\<close>

lemma init_kat: "av1_symbol_init [0, 0] False = Inr kat_sd0"
  by code_simp

lemma read_symbol_kat:
  "av1_symbol_read_symbol kat_sd0 [16384, 24576, 32768, 0] 3 = (Inr 0, kat_sd1, [17408, 25088, 32768, 1])"
  by code_simp

subsection \<open>The range after a read, and the end of the walk\<close>

lemma symbol_renorm_range:
  assumes "symbol_renorm sd1 = (Inr u, sd')"
  shows "2 ^ 15 \<le> symbol_range sd' \<and> symbol_range sd' < 2 ^ 16"
proof -
  from assms have nz: "symbol_range sd1 \<noteq> 0"
    by (auto simp: symbol_renorm_def split: if_splits)
  from assms nz have nb: "\<not> 15 < 15 - floor_log2_u32 (symbol_range sd1)"
    by (auto simp: symbol_renorm_def Let_def split: if_splits)
  from assms nz nb have "symbol_range sd' = push_bit (unat (15 - floor_log2_u32 (symbol_range sd1))) (symbol_range sd1)"
    by (auto simp: symbol_renorm_def Let_def split: if_splits prod.splits option.splits)
  with renorm_range [OF nz nb] show ?thesis by simp
qed

lemma read_symbol_Inr:
  assumes "av1_symbol_read_symbol sd cdf n = (Inr s, sd', cdf')"
  obtains symbol prev cur u where
    "1 < n" "cdf ! (n - 1) = 2 ^ 15"
    "cdf_walk (symbol_range sd) (symbol_value sd) cdf n 0 (symbol_range sd) = Some (symbol, prev, cur)"
    "symbol_renorm (sd\<lparr>symbol_range := prev - cur, symbol_value := symbol_value sd - cur\<rparr>) = (Inr u, sd')"
    "s = word_of_nat symbol"
    "cdf' = (if disable_cdf_update sd' then cdf else cdf_update cdf n symbol)"
  using assms
  by (auto simp: av1_symbol_read_symbol_def split: if_splits option.splits prod.splits sum.splits)

text \<open>
  Claim C3 (as amended). After \<open>init\<close> the range is \<open>1 << 15\<close>, and after every successful
  \<open>read_symbol\<close>, from any decoder state and any CDF, renormalisation has brought
  \<open>symbol_range\<close> into the half-open interval \<open>[1 << 15, 1 << 16)\<close>.
\<close>

theorem symbol_range_renormalized:
  "(av1_symbol_init d dcu = Inr sd0 \<longrightarrow> symbol_range sd0 = 2 ^ 15) \<and>
   (av1_symbol_read_symbol sd cdf n = (Inr s, sd', cdf') \<longrightarrow>
      2 ^ 15 \<le> symbol_range sd' \<and> symbol_range sd' < 2 ^ 16)"
proof (intro conjI impI)
  assume "av1_symbol_init d dcu = Inr sd0"
  then show "symbol_range sd0 = 2 ^ 15"
    by (auto simp: av1_symbol_init_def Let_def split: prod.splits option.splits)
next
  assume a: "av1_symbol_read_symbol sd cdf n = (Inr s, sd', cdf')"
  from a obtain sd1 u where "symbol_renorm sd1 = (Inr u, sd')"
    by (rule read_symbol_Inr)
  from symbol_renorm_range [OF this]
  show "2 ^ 15 \<le> symbol_range sd'" "symbol_range sd' < 2 ^ 16" by simp_all
qed

theorem symbol_range_renormalized_witness:
  "av1_symbol_init [0, 0] False = Inr kat_sd0 \<and>
   av1_symbol_read_symbol kat_sd0 [16384, 24576, 32768, 0] 3 = (Inr 0, kat_sd1, [17408, 25088, 32768, 1]) \<and>
   symbol_range kat_sd0 = 2 ^ 15 \<and> 2 ^ 15 \<le> symbol_range kat_sd1 \<and> symbol_range kat_sd1 < 2 ^ 16"
  using symbol_range_renormalized [of "[0, 0]" False kat_sd0 kat_sd0 "[16384, 24576, 32768, 0]" 3 0 kat_sd1
      "[17408, 25088, 32768, 1]"] init_kat read_symbol_kat
  by simp

text \<open>
  The interval \<open>(1 << 14, 1 << 15]\<close> of the claim as stated is left by the first read of the
  repository's own CDF-update test: the range becomes 65504.
\<close>

theorem symbol_range_interval_counterexample:
  "av1_symbol_init [0, 0] False = Inr kat_sd0 \<and>
   av1_symbol_read_symbol kat_sd0 [16384, 24576, 32768, 0] 3 = (Inr 0, kat_sd1, [17408, 25088, 32768, 1]) \<and>
   \<not> (2 ^ 14 < symbol_range kat_sd1 \<and> symbol_range kat_sd1 \<le> 2 ^ 15)"
  using init_kat read_symbol_kat by (simp add: kat_sd1_def)

text \<open>
  Claim C10. For every decoder state and every CDF with \<open>n > 1\<close> symbols and
  \<open>cdf[n-1] = 1 << 15\<close>, the threshold of the last candidate \<open>n - 1\<close> is 0, so the walk
  stops at some symbol \<open>s < n\<close> and \<open>read_symbol\<close> never reports a walk overflow.
\<close>

theorem cdf_walk_never_overflows:
  assumes "1 < n" and "cdf ! (n - 1) = 2 ^ 15"
  shows "cdf_threshold (symbol_range sd) cdf n (n - 1) = 0 \<and>
         (\<exists>s prev cur. cdf_walk (symbol_range sd) (symbol_value sd) cdf n 0 (symbol_range sd) = Some (s, prev, cur) \<and> s < n) \<and>
         fst (av1_symbol_read_symbol sd cdf n) \<noteq> Inl ''symbol decode failed (cdf walk overflow)''"
proof -
  have t0: "cdf_threshold (symbol_range sd) cdf n (n - 1) = 0"
    by (rule cdf_threshold_last) (use assms in simp_all)
  from assms(1) have "0 < n" by simp
  from cdf_walk_total [OF this assms(2), of "symbol_range sd" "symbol_value sd" "symbol_range sd"]
  obtain s prev cur where
    w: "cdf_walk (symbol_range sd) (symbol_value sd) cdf n 0 (symbol_range sd) = Some (s, prev, cur)" and
    sn: "s < n" by blast
  obtain r sd' where rn: "symbol_renorm (sd\<lparr>symbol_range := prev - cur, symbol_value := symbol_value sd - cur\<rparr>) = (r, sd')"
    by (cases "symbol_renorm (sd\<lparr>symbol_range := prev - cur, symbol_value := symbol_value sd - cur\<rparr>)")
  have rs: "r = Inl ''symbol decode failed (cdf walk overflow)'' \<Longrightarrow> False"
    using rn by (auto simp: symbol_renorm_def Let_def split: if_splits prod.splits option.splits)
  have "fst (av1_symbol_read_symbol sd cdf n) \<noteq> Inl ''symbol decode failed (cdf walk overflow)''"
    using assms w rn rs
    by (cases r) (auto simp add: av1_symbol_read_symbol_def)
  with t0 w sn show ?thesis by blast
qed

theorem cdf_walk_never_overflows_witness:
  "(1::nat) < 3 \<and> [16384, 24576, 32768, 0 :: 16 word] ! (3 - 1) = 2 ^ 15 \<and>
   cdf_threshold (symbol_range kat_sd0) [16384, 24576, 32768, 0] 3 (3 - 1) = 0 \<and>
   cdf_walk (symbol_range kat_sd0) (symbol_value kat_sd0) [16384, 24576, 32768, 0] 3 0 (symbol_range kat_sd0)
     = Some (0, 32768, 16392) \<and>
   fst (av1_symbol_read_symbol kat_sd0 [16384, 24576, 32768, 0] 3) \<noteq> Inl ''symbol decode failed (cdf walk overflow)''"
proof -
  have h1: "(1::nat) < 3" by simp
  have h2: "[16384, 24576, 32768, 0 :: 16 word] ! (3 - 1) = 2 ^ 15" by simp
  have w: "cdf_walk (symbol_range kat_sd0) (symbol_value kat_sd0) [16384, 24576, 32768, 0] 3 0 (symbol_range kat_sd0)
     = Some (0, 32768, 16392)" by code_simp
  from cdf_walk_never_overflows [OF h1 h2, of kat_sd0] h1 h2 w show ?thesis by blast
qed

subsection \<open>The bit reader and init\<close>

lemma length_bits_of_byte: "length (bits_of_byte b) = 8"
  by (simp add: bits_of_byte_def)

lemma length_bits_of_bytes: "length (bits_of_bytes d) = 8 * length d"
  by (induction d) (simp_all add: bits_of_bytes_def length_bits_of_byte)

lemma bits_of_bytes_nth:
  "p < 8 * length d \<Longrightarrow> bits_of_bytes d ! p = bit (d ! (p div 8)) (7 - p mod 8)"
proof (induction d arbitrary: p)
  case Nil
  then show ?case by simp
next
  case (Cons b d)
  have c: "bits_of_bytes (b # d) = bits_of_byte b @ bits_of_bytes d"
    by (simp add: bits_of_bytes_def)
  show ?case
  proof (cases "p < 8")
    case True
    then show ?thesis by (simp add: c nth_append length_bits_of_byte bits_of_byte_def)
  next
    case False
    then have p8: "8 \<le> p" by simp
    with Cons.prems have "p - 8 < 8 * length d" by simp
    from Cons.IH [OF this] have ih: "bits_of_bytes d ! (p - 8) = bit (d ! ((p - 8) div 8)) (7 - (p - 8) mod 8)" .
    from p8 have d: "p div 8 = Suc ((p - 8) div 8)" and m: "p mod 8 = (p - 8) mod 8"
      by (simp_all add: le_div_geq le_mod_geq)
    show ?thesis using False ih by (simp add: c nth_append length_bits_of_byte d m)
  qed
qed

lemma byte_bit_eq:
  "byte_bit byte pos = of_bool (bit byte (7 - unat pos mod 8))"
proof -
  have "pos AND 7 = take_bit 3 pos" by (simp add: take_bit_eq_mask mask_eq_exp_minus_1)
  then have a: "unat (pos AND 7) = unat pos mod 8"
    by (simp add: take_bit_eq_mod unat_mod)
  show ?thesis
    unfolding byte_bit_def a
    by (rule bit_word_eqI) (auto simp: bit_simps bit_of_bool_iff bit_1_iff)
qed

lemma unat_drop_bit3: "unat (drop_bit 3 (p :: 64 word)) = unat p div 8"
  by (simp add: drop_bit_eq_div unat_div)

lemma get_bit_at_eq:
  "get_bit_at d pos = (if unat pos < 8 * length d then Some (of_bool (bits_of_bytes d ! unat pos)) else None)"
proof (cases "unat pos < 8 * length d")
  case True
  then have "\<not> length d \<le> unat pos div 8" by (simp add: less_mult_imp_div_less mult.commute)
  with True show ?thesis
    by (simp add: get_bit_at_def unat_drop_bit3 byte_bit_eq bits_of_bytes_nth)
next
  case False
  then have "length d \<le> unat pos div 8" by (simp add: not_less mult.commute less_eq_div_iff_mult_less_eq)
  with False show ?thesis by (simp add: get_bit_at_def unat_drop_bit3)
qed

lemma br_read_bit_eq:
  "br_read_bit b = (if unat (bitpos b) < 8 * length (data b)
      then Some (of_bool (bits_of_bytes (data b) ! unat (bitpos b)), b\<lparr>bitpos := bitpos b + 1\<rparr>) else None)"
proof (cases "unat (bitpos b) < 8 * length (data b)")
  case True
  then have "\<not> length (data b) \<le> unat (bitpos b) div 8" by (simp add: less_mult_imp_div_less mult.commute)
  with True show ?thesis
    by (simp add: br_read_bit_def unat_drop_bit3 byte_bit_eq bits_of_bytes_nth)
next
  case False
  then have "length (data b) \<le> unat (bitpos b) div 8" by (simp add: not_less mult.commute less_eq_div_iff_mult_less_eq)
  with False show ?thesis by (simp add: br_read_bit_def unat_drop_bit3)
qed

lemma shift_in_bit: "push_bit 1 (w :: 32 word) OR of_bool x = 2 * w + of_bool x"
proof -
  have "2 * w + of_bool x = 2 * w OR of_bool x"
    by (rule disjunctive_add) (auto simp: bit_of_bool_iff bit_double_iff)
  moreover have "push_bit 1 w = 2 * w" by (simp add: push_bit_eq_mult)
  ultimately show ?thesis by (simp only:)
qed

lemma foldl_shift_in:
  "foldl (\<lambda>a x. push_bit 1 a OR of_bool x) (word_of_nat a :: 32 word) bs =
   word_of_nat (foldl (\<lambda>a b. 2 * a + of_bool b) a bs)"
proof (induction bs arbitrary: a)
  case Nil
  show ?case by simp
next
  case (Cons x bs)
  have "push_bit 1 (word_of_nat a :: 32 word) OR of_bool x = word_of_nat (2 * a + of_bool x)"
    unfolding shift_in_bit by simp
  with Cons.IH [of "2 * a + of_bool x"] show ?case by simp
qed

lemma br_read_bits_loop_eq:
  assumes "unat (bitpos b) + k \<le> 8 * length (data b)" and "8 * length (data b) < 2 ^ 64"
  shows "br_read_bits_loop b k v =
    (Some (foldl (\<lambda>a x. push_bit 1 a OR of_bool x) v (take k (drop (unat (bitpos b)) (bits_of_bytes (data b))))),
     b\<lparr>bitpos := bitpos b + word_of_nat k\<rparr>)"
  using assms
proof (induction k arbitrary: b v)
  case 0
  show ?case by simp
next
  case (Suc k)
  let ?p = "unat (bitpos b)"
  let ?bits = "bits_of_bytes (data b)"
  from Suc.prems have lt: "?p < 8 * length (data b)" by simp
  then have rb: "br_read_bit b = Some (of_bool (?bits ! ?p), b\<lparr>bitpos := bitpos b + 1\<rparr>)"
    by (simp add: br_read_bit_eq)
  from lt Suc.prems(2) have "?p + 1 < 2 ^ LENGTH(64)" by simp
  then have "?p + unat (1 :: 64 word) < 2 ^ LENGTH(64)" by simp
  then have "unat (bitpos b + 1) = ?p + unat (1 :: 64 word)" by (simp only: unat_add_lem)
  then have u1: "unat (bitpos b + 1) = Suc ?p" by simp
  let ?b' = "b\<lparr>bitpos := bitpos b + 1\<rparr>"
  have pre: "unat (bitpos ?b') + k \<le> 8 * length (data ?b')" using Suc.prems(1) u1 by simp
  have pre2: "8 * length (data ?b') < 2 ^ 64" using Suc.prems(2) by simp
  have tk: "take (Suc k) (drop ?p ?bits) = ?bits ! ?p # take k (drop (Suc ?p) ?bits)"
    using lt by (simp add: length_bits_of_bytes flip: Cons_nth_drop_Suc)
  show ?case
    using Suc.IH [OF pre pre2, of "push_bit 1 v OR of_bool (?bits ! ?p)"]
    by (simp add: rb u1 tk add.assoc)
qed

lemma br_read_bits_eq:
  assumes "unat (bitpos b) + k \<le> 8 * length (data b)" and "8 * length (data b) < 2 ^ 64" and "k \<le> 32"
  shows "br_read_bits b k =
    (Some (word_of_nat (bits_value (take k (drop (unat (bitpos b)) (bits_of_bytes (data b)))))),
     b\<lparr>bitpos := bitpos b + word_of_nat k\<rparr>)"
proof (cases "k = 0")
  case True
  then show ?thesis by (simp add: br_read_bits_def bits_value_def)
next
  case False
  with assms(3) have "br_read_bits b k = br_read_bits_loop b k 0" by (simp add: br_read_bits_def)
  also have "\<dots> = (Some (foldl (\<lambda>a x. push_bit 1 a OR of_bool x) (word_of_nat 0)
        (take k (drop (unat (bitpos b)) (bits_of_bytes (data b))))), b\<lparr>bitpos := bitpos b + word_of_nat k\<rparr>)"
    using br_read_bits_loop_eq [OF assms(1,2), of 0] by simp
  finally show ?thesis by (simp only: foldl_shift_in bits_value_def)
qed

lemma init_numBits:
  assumes "length d < 2 ^ 61"
  shows "unat (if (word_of_nat (length d) :: 64 word) * 8 < 15 then (word_of_nat (length d) :: 64 word) * 8 else 15)
         = min 15 (8 * length d)"
proof -
  have "(word_of_nat (length d) :: 64 word) * 8 = word_of_nat (length d * 8)" by simp
  then have "unat ((word_of_nat (length d) :: 64 word) * 8) = (length d * 8) mod 2 ^ 64"
    by (simp only: unat_of_nat len_num1 len_bit0 mult_numeral_1_right mult_numeral_1 semiring_norm
          numeral_times_numeral)
  also have "\<dots> = 8 * length d" using assms by simp
  finally have u: "unat ((word_of_nat (length d) :: 64 word) * 8) = 8 * length d" .
  show ?thesis
    by (auto simp: word_less_nat_alt u)
qed

lemma init_eq:
  assumes "length d < 2 ^ 61"
  shows "av1_symbol_init d dcu =
    Inr \<lparr>br = \<lparr>data = d, bitpos = word_of_nat (min 15 (8 * length d))\<rparr>,
         symbol_value = (2 ^ 15 - 1) XOR push_bit (15 - min 15 (8 * length d))
            (word_of_nat (bits_value (take (min 15 (8 * length d)) (bits_of_bytes d)))),
         symbol_range = 2 ^ 15,
         symbol_max_bits = sint (8 * (word_of_nat (length d) :: 32 word)) - 15,
         disable_cdf_update = dcu\<rparr>"
proof -
  let ?k = "min 15 (8 * length d)"
  let ?b0 = "\<lparr>data = d, bitpos = 0 :: 64 word\<rparr>"
  have a: "unat (bitpos ?b0) + ?k \<le> 8 * length (data ?b0)" by simp
  have b: "8 * length (data ?b0) < 2 ^ 64" using assms by simp
  have c: "?k \<le> 32" by simp
  from br_read_bits_eq [OF a b c]
  have "br_read_bits ?b0 ?k = (Some (word_of_nat (bits_value (take ?k (bits_of_bytes d)))),
      \<lparr>data = d, bitpos = word_of_nat ?k\<rparr>)" by simp
  then show ?thesis
    unfolding av1_symbol_init_def Let_def init_numBits [OF assms] by simp
qed

lemma sint_size8:
  assumes "length d < 2 ^ 28"
  shows "sint (8 * (word_of_nat (length d) :: 32 word)) = 8 * int (length d)"
proof -
  have e: "8 * (word_of_nat (length d) :: 32 word) = word_of_nat (8 * length d)" by simp
  from assms have b: "int (8 * length d) < 2 ^ 31" by simp
  have "sint (word_of_nat (8 * length d) :: 32 word) = signed_take_bit (LENGTH(32) - Suc 0) (int (8 * length d))"
    using signed_of_nat [where ?'a = int and ?'b = 32, of "8 * length d"] by simp
  also have "\<dots> = int (8 * length d)"
    using b by (intro signed_take_bit_int_eq_self) simp_all
  finally show ?thesis unfolding e by simp
qed

text \<open>
  Claim C7 (as amended). For every buffer of fewer than \<open>2 ^ 28\<close> bytes, \<open>init\<close> succeeds and
  leaves \<open>symbol_range = 1 << 15\<close>, \<open>symbol_max_bits = 8 * |data| - 15\<close>,
  \<open>bitpos = min 15 (8 * |data|)\<close> and
  \<open>symbol_value = ((1 << 15) - 1) XOR (buf << (15 - k))\<close>, where \<open>buf\<close> is the number denoted
  by the first \<open>k = min 15 (8 * |data|)\<close> bits of the buffer.
\<close>

theorem init_state:
  assumes "length d < 2 ^ 28"
  shows "\<exists>sd. av1_symbol_init d dcu = Inr sd \<and>
     symbol_range sd = 2 ^ 15 \<and>
     symbol_max_bits sd = 8 * int (length d) - 15 \<and>
     unat (bitpos (br sd)) = min 15 (8 * length d) \<and>
     symbol_value sd = (2 ^ 15 - 1) XOR push_bit (15 - min 15 (8 * length d))
        (word_of_nat (bits_value (take (min 15 (8 * length d)) (bits_of_bytes d))))"
proof -
  from assms have l: "length d < 2 ^ 61" by simp
  have "unat (word_of_nat (min 15 (8 * length d)) :: 64 word) = min 15 (8 * length d)"
    by (simp add: unat_of_nat)
  then show ?thesis
    unfolding init_eq [OF l] using sint_size8 [OF assms] by simp
qed

theorem init_state_witness:
  "length [0x80, 0 :: 8 word] < 2 ^ 28 \<and>
   av1_symbol_init [0x80, 0] False =
     Inr \<lparr>br = \<lparr>data = [0x80, 0], bitpos = 15\<rparr>, symbol_value = 16383, symbol_range = 32768,
          symbol_max_bits = 1, disable_cdf_update = False\<rparr> \<and>
   (16383 :: 32 word) = (2 ^ 15 - 1) XOR push_bit (15 - min 15 (8 * length [0x80, 0 :: 8 word]))
        (word_of_nat (bits_value (take (min 15 (8 * length [0x80, 0 :: 8 word])) (bits_of_bytes [0x80, 0]))))"
proof -
  have h: "length [0x80, 0 :: 8 word] < 2 ^ 28" by simp
  have e: "av1_symbol_init [0x80, 0] False =
     Inr \<lparr>br = \<lparr>data = [0x80, 0], bitpos = 15\<rparr>, symbol_value = 16383, symbol_range = 32768,
          symbol_max_bits = 1, disable_cdf_update = False\<rparr>" by code_simp
  from init_state [OF h, of False] e h show ?thesis by auto
qed

lemma bits_of_bytes_replicate_zero: "bits_of_bytes (replicate n 0) = replicate (8 * n) False"
proof (induction n)
  case 0
  show ?case by (simp add: bits_of_bytes_def)
next
  case (Suc n)
  have z: "bits_of_byte 0 = replicate 8 False"
    by (simp add: bits_of_byte_def upt_rec numeral_eq_Suc)
  have "bits_of_bytes (replicate (Suc n) 0) = bits_of_byte 0 @ bits_of_bytes (replicate n 0)"
    by (simp add: bits_of_bytes_def)
  also have "\<dots> = replicate 8 False @ replicate (8 * n) False" by (simp only: z Suc.IH)
  also have "\<dots> = replicate (8 + 8 * n) False" by (simp only: replicate_add)
  finally show ?case by simp
qed

lemma bits_value_replicate_False: "bits_value (replicate n False) = 0"
proof -
  have "foldl (\<lambda>a b. 2 * a + of_bool b) 0 (replicate n False) = (0::nat)"
    by (induction n) simp_all
  then show ?thesis by (simp add: bits_value_def)
qed

text \<open>
  Without the bound the claim fails: \<open>symbol_max_bits\<close> is computed as
  \<open>(int32_t)(8u * (uint32_t)size_bytes) - 15\<close>, and for a buffer of \<open>2 ^ 29\<close> bytes the
  32-bit product is 0.
\<close>

theorem init_max_bits_counterexample:
  "av1_symbol_init (replicate (2 ^ 29) 0) False =
     Inr \<lparr>br = \<lparr>data = replicate (2 ^ 29) 0, bitpos = 15\<rparr>, symbol_value = 32767, symbol_range = 32768,
          symbol_max_bits = - 15, disable_cdf_update = False\<rparr> \<and>
   (- 15 :: int) \<noteq> 8 * int (length (replicate (2 ^ 29) (0 :: 8 word))) - 15"
proof -
  have l: "length (replicate (2 ^ 29) (0 :: 8 word)) < 2 ^ 61" by simp
  have m: "min 15 (8 * length (replicate (2 ^ 29) (0 :: 8 word))) = 15" by simp
  have t: "take 15 (replicate (8 * 2 ^ 29) False) = replicate 15 False" by simp
  have s: "sint (8 * (word_of_nat (length (replicate (2 ^ 29) (0 :: 8 word))) :: 32 word)) = 0" by simp
  show ?thesis
    unfolding init_eq [OF l] m s bits_of_bytes_replicate_zero t bits_value_replicate_False
    by simp
qed

subsection \<open>The CDF adaptation rule\<close>

lemma cdf_rate_eq:
  assumes "n < 2 ^ 32"
  shows "unat (cdf_rate c n) = spec_rate (unat c) n"
proof -
  have un: "unat (word_of_nat n :: 32 word) = n" using assms by (simp add: unat_of_nat)
  have lg: "unat (floor_log2_u32 (word_of_nat n)) = flog2 n"
    by (simp add: floor_log2_u32_unat un)
  have k: "flog2 n < 32" using assms by (intro flog2_le) simp_all
  have c15: "(15 < c) = (15 < unat c)" and c31: "(31 < c) = (31 < unat c)"
    by (simp_all add: word_less_nat_alt)
  have l2: "(floor_log2_u32 (word_of_nat n) < 2) = (flog2 n < 2)"
    by (simp add: word_less_nat_alt lg)
  consider "flog2 n = 0" | "flog2 n = 1" | "2 \<le> flog2 n" by linarith
  then show ?thesis
  proof cases
    case 1
    with lg have "floor_log2_u32 (word_of_nat n) = 0" by (simp add: unat_eq_0)
    with 1 show ?thesis by (simp add: cdf_rate_def spec_rate_def Let_def c15 c31)
  next
    case 2
    with lg have "floor_log2_u32 (word_of_nat n) = 1" by (metis unat_1 word_unat_eq_iff)
    with 2 show ?thesis by (simp add: cdf_rate_def spec_rate_def Let_def c15 c31)
  next
    case 3
    with l2 have "\<not> floor_log2_u32 (word_of_nat n) < 2" by simp
    with 3 show ?thesis by (simp add: cdf_rate_def spec_rate_def Let_def c15 c31 min_def)
  qed
qed

lemma cdf_update_loop_nth:
  assumes "n \<le> length cdf"
  shows "length (cdf_update_loop n symbol rate i tmp cdf) = length cdf \<and>
         (\<forall>j. cdf_update_loop n symbol rate i tmp cdf ! j =
            (if i \<le> j \<and> j + 1 < n
             then cdf_step rate (if i \<le> symbol \<and> symbol \<le> j then 2 ^ 15 else tmp) (cdf ! j)
             else cdf ! j))"
  using assms
proof (induction m \<equiv> "n - i" arbitrary: i tmp cdf)
  case 0
  then have "\<not> i + 1 < n" by simp
  then show ?case by (subst cdf_update_loop.simps, subst cdf_update_loop.simps) auto
next
  case (Suc m)
  show ?case
  proof (cases "i + 1 < n")
    case False
    then show ?thesis by (subst cdf_update_loop.simps, subst cdf_update_loop.simps) auto
  next
    case True
    let ?tmp' = "if i = symbol then 2 ^ 15 else tmp"
    let ?cdf' = "cdf[i := cdf_step rate ?tmp' (cdf ! i)]"
    have unf: "cdf_update_loop n symbol rate i tmp cdf = cdf_update_loop n symbol rate (i + 1) ?tmp' ?cdf'"
      using True by (subst cdf_update_loop.simps) (simp add: Let_def cdf_step_def)
    from Suc.hyps(2) True have m: "m = n - (i + 1)" by simp
    have len: "n \<le> length ?cdf'" using Suc.prems by simp
    note ih = Suc.hyps(1) [OF m len, of ?tmp']
    have il: "i < length cdf" using True Suc.prems by simp
    show ?thesis
    proof (intro conjI allI)
      show "length (cdf_update_loop n symbol rate i tmp cdf) = length cdf"
        unfolding unf using ih by simp
    next
      fix j
      show "cdf_update_loop n symbol rate i tmp cdf ! j =
            (if i \<le> j \<and> j + 1 < n
             then cdf_step rate (if i \<le> symbol \<and> symbol \<le> j then 2 ^ 15 else tmp) (cdf ! j)
             else cdf ! j)"
      proof (cases "j = i")
        case True
        with ih il \<open>i + 1 < n\<close> show ?thesis unfolding unf by simp
      next
        case False
        with ih il show ?thesis unfolding unf by (auto simp: nth_list_update)
      qed
    qed
  qed
qed

lemma unat_ucast_16_32: "unat (ucast (c :: 16 word) :: 32 word) = unat c"
proof -
  have "unat c < 2 ^ LENGTH(16)" by (rule unsigned_less)
  then have "unat c < 2 ^ 32" by simp
  then show ?thesis by (simp add: unsigned_ucast_eq take_bit_nat_eq_self)
qed

lemma unat_ucast_32_16: "unat (w :: 32 word) < 2 ^ 16 \<Longrightarrow> unat (ucast w :: 16 word) = unat w"
  by (simp add: unsigned_ucast_eq take_bit_nat_eq_self)

lemma cdf_step_eq:
  assumes c: "c \<le> 2 ^ 15" and t: "tmp = 0 \<or> tmp = 2 ^ 15"
  shows "unat (cdf_step rate tmp c) = spec_move (unat c) (unat tmp) rate"
proof -
  let ?ci = "ucast c :: 32 word"
  let ?x = "unat c"
  let ?t = "unat tmp"
  have uc: "unat ?ci = ?x" by (rule unat_ucast_16_32)
  from c have x: "?x \<le> 32768" by (simp add: word_le_nat_alt)
  from t have tb: "?t \<le> 32768" by auto
  show ?thesis
  proof (cases "tmp < ?ci")
    case True
    then have lt: "?t < ?x" by (simp add: word_less_nat_alt uc)
    from True have le: "tmp \<le> ?ci" by simp
    have d: "unat (?ci - tmp) = ?x - ?t" using unat_sub [OF le] uc by simp
    have q: "unat (drop_bit rate (?ci - tmp)) = (?x - ?t) div 2 ^ rate"
      by (simp only: unat_drop_bit_eq d) (simp add: drop_bit_eq_div)
    have "(?x - ?t) div 2 ^ rate \<le> ?x - ?t" by (rule div_le_dividend)
    also have "\<dots> \<le> ?x" by (rule diff_le_self)
    finally have qle: "(?x - ?t) div 2 ^ rate \<le> ?x" .
    then have "drop_bit rate (?ci - tmp) \<le> ?ci" by (simp add: word_le_nat_alt q uc)
    from unat_sub [OF this] have r: "unat (?ci - drop_bit rate (?ci - tmp)) = ?x - (?x - ?t) div 2 ^ rate"
      by (simp add: q uc)
    with x have nc: "\<not> 2 ^ 15 < ?ci - drop_bit rate (?ci - tmp)" by (simp add: word_less_nat_alt)
    from r x have "unat (?ci - drop_bit rate (?ci - tmp)) < 2 ^ 16" by simp
    from unat_ucast_32_16 [OF this] r True nc lt show ?thesis
      by (simp add: cdf_step_def Let_def spec_move_def)
  next
    case False
    then have ge: "?x \<le> ?t" by (simp add: word_less_nat_alt uc not_less)
    then have le: "?ci \<le> tmp" by (simp add: word_le_nat_alt uc)
    have d: "unat (tmp - ?ci) = ?t - ?x" using unat_sub [OF le] uc by simp
    have q: "unat (drop_bit rate (tmp - ?ci)) = (?t - ?x) div 2 ^ rate"
      by (simp only: unat_drop_bit_eq d) (simp add: drop_bit_eq_div)
    have ql: "(?t - ?x) div 2 ^ rate \<le> ?t - ?x" by (rule div_le_dividend)
    with ge tb have s: "?x + (?t - ?x) div 2 ^ rate \<le> 32768" by linarith
    then have "unat ?ci + unat (drop_bit rate (tmp - ?ci)) < 2 ^ LENGTH(32)" by (simp add: q uc)
    then have "unat (?ci + drop_bit rate (tmp - ?ci)) = unat ?ci + unat (drop_bit rate (tmp - ?ci))"
      by (simp only: unat_add_lem)
    then have r: "unat (?ci + drop_bit rate (tmp - ?ci)) = ?x + (?t - ?x) div 2 ^ rate" by (simp add: q uc)
    with s have nc: "\<not> 2 ^ 15 < ?ci + drop_bit rate (tmp - ?ci)" by (simp add: word_less_nat_alt)
    from r s have "unat (?ci + drop_bit rate (tmp - ?ci)) < 2 ^ 16" by simp
    from unat_ucast_32_16 [OF this] r False nc ge show ?thesis
      by (simp add: cdf_step_def Let_def spec_move_def)
  qed
qed

lemma symbol_renorm_flag:
  "symbol_renorm sd1 = (r, sd') \<Longrightarrow> disable_cdf_update sd' = disable_cdf_update sd1"
  by (auto simp: symbol_renorm_def Let_def split: if_splits prod.splits option.splits)

lemma cdf_update_props:
  assumes len: "length cdf = n + 1" and n: "n < 2 ^ 32" and n1: "1 < n"
    and wf: "\<forall>i<n. cdf ! i \<le> 2 ^ 15" and cnt: "cdf ! n \<le> 32"
  shows "length (cdf_update cdf n symbol) = n + 1 \<and>
     (\<forall>i<n - 1. unat (cdf_update cdf n symbol ! i) =
         spec_move (unat (cdf ! i)) (if symbol \<le> i then 2 ^ 15 else 0) (spec_rate (unat (cdf ! n)) n)) \<and>
     cdf_update cdf n symbol ! (n - 1) = cdf ! (n - 1) \<and>
     unat (cdf_update cdf n symbol ! n) = min (unat (cdf ! n) + 1) 32"
proof -
  let ?rate = "unat (cdf_rate (cdf ! n) n)"
  let ?c1 = "cdf_update_loop n symbol ?rate 0 0 cdf"
  from len have nl: "n \<le> length cdf" by simp
  from cdf_update_loop_nth [OF nl, of symbol ?rate 0 0]
  have l1: "length ?c1 = n + 1" and
    nth1: "\<And>j. ?c1 ! j = (if j + 1 < n then cdf_step ?rate (if symbol \<le> j then 2 ^ 15 else 0) (cdf ! j) else cdf ! j)"
    using len by simp_all
  have cn: "?c1 ! n = cdf ! n" using nth1 [of n] by simp
  have cl: "?c1 ! (n - 1) = cdf ! (n - 1)" using nth1 [of "n - 1"] n1 by simp
  have r: "?rate = spec_rate (unat (cdf ! n)) n" by (rule cdf_rate_eq [OF n])
  have a: "length (cdf_update cdf n symbol) = n + 1"
    by (simp add: cdf_update_def Let_def l1)
  have b: "unat (cdf_update cdf n symbol ! i) =
         spec_move (unat (cdf ! i)) (if symbol \<le> i then 2 ^ 15 else 0) (spec_rate (unat (cdf ! n)) n)"
    if i: "i < n - 1" for i
  proof -
    from i have i1: "i + 1 < n" and ne: "i \<noteq> n" and il: "i < n" by simp_all
    from wf il have ci: "cdf ! i \<le> 2 ^ 15" by simp
    have "cdf_update cdf n symbol ! i = ?c1 ! i"
      using ne l1 by (simp add: cdf_update_def Let_def)
    also have "\<dots> = cdf_step ?rate (if symbol \<le> i then 2 ^ 15 else 0) (cdf ! i)"
      using nth1 [of i] i1 by simp
    finally have e: "cdf_update cdf n symbol ! i = cdf_step ?rate (if symbol \<le> i then 2 ^ 15 else 0) (cdf ! i)" .
    show ?thesis
      unfolding e r [symmetric]
      by (cases "symbol \<le> i") (simp_all add: cdf_step_eq [OF ci])
  qed
  have c: "cdf_update cdf n symbol ! (n - 1) = cdf ! (n - 1)"
  proof -
    from n1 have "n - 1 \<noteq> n" by simp
    then show ?thesis using l1 cl by (simp add: cdf_update_def Let_def)
  qed
  have d: "unat (cdf_update cdf n symbol ! n) = min (unat (cdf ! n) + 1) 32"
  proof (cases "cdf ! n < 32")
    case True
    then have u: "unat (cdf ! n) < 32" by (simp add: word_less_nat_alt)
    then have "unat (cdf ! n) + unat (1 :: 16 word) < 2 ^ LENGTH(16)" by simp
    then have "unat (cdf ! n + 1) = unat (cdf ! n) + unat (1 :: 16 word)" by (simp only: unat_add_lem)
    with True u show ?thesis using l1 cn by (simp add: cdf_update_def Let_def)
  next
    case False
    with cnt have "unat (cdf ! n) = 32" by (simp add: word_less_nat_alt word_le_nat_alt)
    with False show ?thesis using cn by (simp add: cdf_update_def Let_def)
  qed
  from a b c d show ?thesis by blast
qed

lemma cdf_walk_symbol_less:
  assumes "cdf_walk rng val cdf n symbol c = Some (s, prev, cur)"
  shows "s < n"
  using assms
proof (induction m \<equiv> "n - symbol" arbitrary: symbol c)
  case 0
  then show ?case by (subst (asm) cdf_walk.simps) simp
next
  case (Suc m)
  from Suc.hyps(2) have lt: "symbol < n" by simp
  show ?case
  proof (cases "cdf_threshold rng cdf n symbol \<le> val")
    case True
    with Suc.prems lt show ?thesis by (subst (asm) cdf_walk.simps) (simp add: Let_def)
  next
    case False
    with Suc.prems lt have w: "cdf_walk rng val cdf n (Suc symbol) (cdf_threshold rng cdf n symbol) = Some (s, prev, cur)"
      by (subst (asm) cdf_walk.simps) (simp add: Let_def)
    from Suc.hyps(2) have "m = n - Suc symbol" by simp
    from Suc.hyps(1) [OF this w] show ?thesis .
  qed
qed

text \<open>
  Claim C4. A CDF of \<open>N\<close> symbols is an array \<open>cdf\<close> of length \<open>N + 1\<close> (with \<open>N < 2 ^ 32\<close>)
  whose entries \<open>cdf[i]\<close>, \<open>i < N\<close>, are cumulative probabilities, at most \<open>1 << 15\<close>, and whose
  last element is the adaptation count \<open>c = cdf[N]\<close>, at most 32. After a successful
  \<open>read_symbol\<close> with \<open>disable_cdf_update = false\<close> and decoded symbol \<open>s\<close>, every entry
  \<open>i < N - 1\<close> has moved towards \<open>(i \<ge> s ? 1 << 15 : 0)\<close> by exactly
  \<open>|cdf[i] - target| >> rate\<close> with
  \<open>rate = 3 + (c > 15) + (c > 31) + min (floor_log2 N) 2\<close>, and \<open>cdf[N] = min (c + 1) 32\<close>.
  In particular, from CDF \<open>{16384, 24576, 32768, 0}\<close> and data \<open>[0x00, 0x00]\<close> one read
  decodes symbol 0 and leaves \<open>{17408, 25088, 32768, 1}\<close>.
\<close>

theorem cdf_adaptation_rule:
  assumes len: "length cdf = n + 1" and n: "n < 2 ^ 32"
    and wf: "\<forall>i<n. cdf ! i \<le> 2 ^ 15" and cnt: "cdf ! n \<le> 32"
    and upd: "\<not> disable_cdf_update sd"
    and rd: "av1_symbol_read_symbol sd cdf n = (Inr s, sd', cdf')"
  shows "length cdf' = n + 1 \<and>
     (\<forall>i<n - 1. unat (cdf' ! i) =
         spec_move (unat (cdf ! i)) (if unat s \<le> i then 2 ^ 15 else 0) (spec_rate (unat (cdf ! n)) n)) \<and>
     unat (cdf' ! n) = min (unat (cdf ! n) + 1) 32 \<and>
     av1_symbol_init [0, 0] False = Inr kat_sd0 \<and>
     av1_symbol_read_symbol kat_sd0 [16384, 24576, 32768, 0] 3 = (Inr 0, kat_sd1, [17408, 25088, 32768, 1])"
proof -
  from rd obtain symbol prev cur u where
    n1: "1 < n" and
    w: "cdf_walk (symbol_range sd) (symbol_value sd) cdf n 0 (symbol_range sd) = Some (symbol, prev, cur)" and
    rn: "symbol_renorm (sd\<lparr>symbol_range := prev - cur, symbol_value := symbol_value sd - cur\<rparr>) = (Inr u, sd')" and
    s: "s = word_of_nat symbol" and
    c: "cdf' = (if disable_cdf_update sd' then cdf else cdf_update cdf n symbol)"
    by (rule read_symbol_Inr)
  from symbol_renorm_flag [OF rn] upd have "\<not> disable_cdf_update sd'" by simp
  with c have c': "cdf' = cdf_update cdf n symbol" by simp
  from cdf_walk_symbol_less [OF w] have sl: "symbol < n" .
  with n have "symbol < 2 ^ 32" by simp
  with s have us: "unat s = symbol" by (simp add: unat_of_nat)
  from cdf_update_props [OF len n n1 wf cnt, of symbol] init_kat read_symbol_kat
  show ?thesis unfolding c' us by blast
qed

theorem cdf_adaptation_rule_witness:
  "av1_symbol_read_symbol kat_sd0 [16384, 24576, 32768, 0] 3 = (Inr 0, kat_sd1, [17408, 25088, 32768, 1]) \<and>
   spec_rate (unat (0 :: 16 word)) 3 = 4 \<and>
   unat ([17408, 25088, 32768, 1 :: 16 word] ! 0) = spec_move (unat (16384 :: 16 word)) (2 ^ 15) 4 \<and>
   unat ([17408, 25088, 32768, 1 :: 16 word] ! 1) = spec_move (unat (24576 :: 16 word)) (2 ^ 15) 4 \<and>
   unat ([17408, 25088, 32768, 1 :: 16 word] ! 3) = min (unat (0 :: 16 word) + 1) 32"
proof -
  have h1: "length [16384, 24576, 32768, 0 :: 16 word] = 3 + 1" by simp
  have h2: "(3 :: nat) < 2 ^ 32" by simp
  have h3: "\<forall>i<3. [16384, 24576, 32768, 0 :: 16 word] ! i \<le> 2 ^ 15"
    by (simp add: numeral_3_eq_3 All_less_Suc)
  have h4: "[16384, 24576, 32768, 0 :: 16 word] ! 3 \<le> 32" by simp
  have h5: "\<not> disable_cdf_update kat_sd0" by (simp add: kat_sd0_def)
  have r: "spec_rate (unat (0 :: 16 word)) 3 = 4" by code_simp
  from cdf_adaptation_rule [OF h1 h2 h3 h4 h5 read_symbol_kat]
  have a: "\<forall>i<3 - 1. unat ([17408, 25088, 32768, 1 :: 16 word] ! i) =
         spec_move (unat ([16384, 24576, 32768, 0 :: 16 word] ! i)) (if unat (0 :: 32 word) \<le> i then 2 ^ 15 else 0)
           (spec_rate (unat ([16384, 24576, 32768, 0 :: 16 word] ! 3)) 3)"
    and b: "unat ([17408, 25088, 32768, 1 :: 16 word] ! 3) = min (unat ([16384, 24576, 32768, 0 :: 16 word] ! 3) + 1) 32"
    by blast+
  have a0: "unat ([17408, 25088, 32768, 1 :: 16 word] ! 0) = spec_move (unat (16384 :: 16 word)) (2 ^ 15) 4"
    using a [rule_format, of 0] r by simp
  have a1: "unat ([17408, 25088, 32768, 1 :: 16 word] ! 1) = spec_move (unat (24576 :: 16 word)) (2 ^ 15) 4"
    using a [rule_format, of 1] r by simp
  from read_symbol_kat r a0 a1 b show ?thesis by simp
qed

subsection \<open>The exit process\<close>

lemma renorm_bits_unat:
  fixes r :: "32 word"
  shows "unat (15 - floor_log2_u32 r) =
      (if flog2 (unat r) \<le> 15 then 15 - flog2 (unat r) else 15 + 2 ^ 32 - flog2 (unat r))"
  using floor_log2_u32_unat [of r] by (simp add: unat_sub_if_size word_size)

lemma renorm_bits_ok:
  fixes r :: "32 word"
  assumes "r < 2 ^ 16"
  shows "\<not> 15 < 15 - floor_log2_u32 r" and "unat (15 - floor_log2_u32 r) = 15 - flog2 (unat r)"
proof -
  from assms have "unat r < 2 ^ 16" by (simp add: word_less_nat_alt)
  then have "flog2 (unat r) < 16" by (rule flog2_le) simp
  then have k: "flog2 (unat r) \<le> 15" by simp
  with renorm_bits_unat [of r] show u: "unat (15 - floor_log2_u32 r) = 15 - flog2 (unat r)" by simp
  then have "unat (15 - floor_log2_u32 r) \<le> 15" by simp
  then show "\<not> 15 < 15 - floor_log2_u32 r" by (simp add: word_less_nat_alt)
qed

lemma renorm_range_small:
  fixes r :: "32 word"
  assumes "\<not> 15 < 15 - floor_log2_u32 r"
  shows "r < 2 ^ 16"
proof (cases "r = 0")
  case True
  then show ?thesis by simp
next
  case False
  then have "0 < unat r" by (simp add: unat_gt_0)
  from flog2_bounds [OF this] have "unat r < 2 ^ Suc (flog2 (unat r))" by simp
  also from renorm_bits_le [OF assms] have "(2::nat) ^ Suc (flog2 (unat r)) \<le> 2 ^ 16"
    by (intro power_increasing) simp_all
  finally show ?thesis by (simp add: word_less_nat_alt)
qed

lemma symbol_renorm_Inr_range:
  assumes "symbol_renorm sd1 = (Inr u, sd')"
  shows "symbol_range sd1 \<noteq> 0 \<and> symbol_range sd1 < 2 ^ 16"
proof -
  from assms have nz: "symbol_range sd1 \<noteq> 0"
    by (auto simp: symbol_renorm_def split: if_splits)
  from assms nz have nb: "\<not> 15 < 15 - floor_log2_u32 (symbol_range sd1)"
    by (auto simp: symbol_renorm_def Let_def split: if_splits)
  from nz renorm_range_small [OF nb] show ?thesis by simp
qed

lemma symbol_renorm_eq:
  assumes nz: "symbol_range sd1 \<noteq> 0" and lt: "symbol_range sd1 < 2 ^ 16"
    and acc: "int (unat (bitpos (br sd1))) + max 0 (symbol_max_bits sd1) \<le> 8 * int (length (data (br sd1)))"
    and sz: "8 * length (data (br sd1)) < 2 ^ 64"
  shows "symbol_renorm sd1 =
    (Inr (),
     sd1\<lparr>symbol_range := push_bit (renorm_bits sd1) (symbol_range sd1),
         br := (br sd1)\<lparr>bitpos := bitpos (br sd1) + word_of_nat (renorm_numBits sd1)\<rparr>,
         symbol_value := push_bit (renorm_bits sd1 - renorm_numBits sd1)
              (word_of_nat (bits_value (take (renorm_numBits sd1)
                 (drop (unat (bitpos (br sd1))) (bits_of_bytes (data (br sd1)))))))
            XOR (push_bit (renorm_bits sd1) (symbol_value sd1 + 1) - 1),
         symbol_max_bits := symbol_max_bits sd1 - int (renorm_bits sd1)\<rparr>)"
proof -
  let ?bits = "renorm_bits sd1"
  let ?nb = "renorm_numBits sd1"
  note ok = renorm_bits_ok [OF lt]
  have ub: "unat (15 - floor_log2_u32 (symbol_range sd1)) = ?bits"
    using ok(2) by (simp add: renorm_bits_def)
  have b15: "?bits \<le> 15" by (simp add: renorm_bits_def)
  have nbeq: "(if (if symbol_max_bits sd1 < 0 then 0 else symbol_max_bits sd1) < int ?bits
               then nat (if symbol_max_bits sd1 < 0 then 0 else symbol_max_bits sd1) else ?bits) = ?nb"
    by (auto simp: renorm_numBits_def min_def max_def)
  have nb_le: "?nb \<le> 32" using b15 by (simp add: renorm_numBits_def)
  have "int ?nb \<le> max 0 (symbol_max_bits sd1)" by (simp add: renorm_numBits_def)
  with acc have a1: "unat (bitpos (br sd1)) + ?nb \<le> 8 * length (data (br sd1))" by linarith
  have rd: "(if 0 < ?nb then br_read_bits (br sd1) ?nb else (Some 0, br sd1)) =
      (Some (word_of_nat (bits_value (take ?nb (drop (unat (bitpos (br sd1))) (bits_of_bytes (data (br sd1))))))),
       (br sd1)\<lparr>bitpos := bitpos (br sd1) + word_of_nat ?nb\<rparr>)"
  proof (cases "?nb = 0")
    case True
    then show ?thesis by (simp add: bits_value_def)
  next
    case False
    with br_read_bits_eq [OF a1 sz nb_le] show ?thesis by simp
  qed
  show ?thesis
    unfolding symbol_renorm_def Let_def
    using nz ok(1) by (simp add: ub nbeq rd split del: if_split cong: if_cong)
qed

lemma bits_value_less: "bits_value bs < 2 ^ length bs"
proof -
  have "foldl (\<lambda>a b. 2 * a + of_bool b) a bs < (a + 1) * 2 ^ length bs" for a :: nat
  proof (induction bs arbitrary: a)
    case Nil
    show ?case by simp
  next
    case (Cons x bs)
    have "foldl (\<lambda>a b. 2 * a + of_bool b) (2 * a + of_bool x) bs < (2 * a + of_bool x + 1) * 2 ^ length bs"
      by (rule Cons.IH)
    also have "\<dots> \<le> (2 * a + 2) * 2 ^ length bs" by (intro mult_le_mono1) simp
    also have "\<dots> = (a + 1) * 2 ^ length (x # bs)" by simp
    finally show ?case by simp
  qed
  from this [of 0] show ?thesis by (simp add: bits_value_def)
qed

lemma bits_value_take_less: "bits_value (take k xs) < 2 ^ k"
proof -
  have "bits_value (take k xs) < 2 ^ length (take k xs)" by (rule bits_value_less)
  also have "(2::nat) ^ length (take k xs) \<le> 2 ^ k" by (intro power_increasing) simp_all
  finally show ?thesis .
qed

lemma renorm_value_less:
  fixes v r :: "32 word"
  assumes vr: "v < r" and rb: "unat r * 2 ^ m < 2 ^ 16" and p: "p < 2 ^ k" and km: "k \<le> m"
  shows "push_bit (m - k) (word_of_nat p) XOR (push_bit m (v + 1) - 1) < push_bit m r"
proof -
  let ?x = "unat v"
  from vr have xr: "?x < unat r" by (simp add: word_less_nat_alt)
  have "unat r \<le> unat r * 2 ^ m" by simp
  from this rb have r16: "unat r < 2 ^ 16" by (rule le_less_trans)
  with xr have "?x + unat (1 :: 32 word) < 2 ^ LENGTH(32)" by simp
  then have "unat (v + 1) = ?x + unat (1 :: 32 word)" by (simp only: unat_add_lem)
  then have v1: "unat (v + 1) = ?x + 1" by simp
  from xr have "(?x + 1) * 2 ^ m \<le> unat r * 2 ^ m" by (intro mult_le_mono1) simp
  with rb have xb: "(?x + 1) * 2 ^ m < 2 ^ 16" by simp
  have pbv: "unat (push_bit m (v + 1)) = (?x + 1) * 2 ^ m"
  proof -
    have "unat (push_bit m (v + 1)) = take_bit LENGTH(32) (push_bit m (unat (v + 1)))"
      by (rule unsigned_push_bit_eq)
    also have "\<dots> = ((?x + 1) * 2 ^ m) mod 2 ^ 32" by (simp add: v1 push_bit_eq_mult take_bit_eq_mod)
    also have "\<dots> = (?x + 1) * 2 ^ m" using xb by simp
    finally show ?thesis .
  qed
  have pbr: "unat (push_bit m r) = unat r * 2 ^ m"
  proof -
    have "unat (push_bit m r) = take_bit LENGTH(32) (push_bit m (unat r))"
      by (rule unsigned_push_bit_eq)
    also have "\<dots> = (unat r * 2 ^ m) mod 2 ^ 32" by (simp add: push_bit_eq_mult take_bit_eq_mod)
    also have "\<dots> = unat r * 2 ^ m" using rb by simp
    finally show ?thesis .
  qed
  have "(1::nat) \<le> 2 ^ m" by simp
  also have "\<dots> \<le> (?x + 1) * 2 ^ m" by simp
  finally have "1 \<le> (?x + 1) * 2 ^ m" .
  then have "(1 :: 32 word) \<le> push_bit m (v + 1)" by (simp add: word_le_nat_alt pbv)
  from unat_sub [OF this] have X: "unat (push_bit m (v + 1) - 1) = (?x + 1) * 2 ^ m - 1" by (simp add: pbv)
  have pm: "p * 2 ^ (m - k) < 2 ^ m"
  proof -
    from p have "p * 2 ^ (m - k) < 2 ^ k * 2 ^ (m - k)" by (rule mult_less_mono1) simp
    also have "\<dots> = 2 ^ m" using km by (simp flip: power_add)
    finally show ?thesis .
  qed
  from xr have "1 \<le> unat r" by simp
  then have "1 * 2 ^ m \<le> unat r * 2 ^ m" by (rule mult_le_mono1)
  then have "(2::nat) ^ m \<le> unat r * 2 ^ m" by simp
  from this rb have "(2::nat) ^ m < 2 ^ 16" by (rule le_less_trans)
  then have "(2::nat) ^ m \<le> 2 ^ 16" by simp
  with pm have pm32: "p * 2 ^ (m - k) < 2 ^ 32" by simp
  have "p \<le> p * 2 ^ (m - k)" by simp
  from this pm32 have "p < 2 ^ 32" by (rule le_less_trans)
  then have up: "unat (word_of_nat p :: 32 word) = p" by (simp add: unat_of_nat)
  have P: "unat (push_bit (m - k) (word_of_nat p :: 32 word)) = p * 2 ^ (m - k)"
  proof -
    have "unat (push_bit (m - k) (word_of_nat p :: 32 word)) =
        take_bit LENGTH(32) (push_bit (m - k) (unat (word_of_nat p :: 32 word)))"
      by (rule unsigned_push_bit_eq)
    also have "\<dots> = (p * 2 ^ (m - k)) mod 2 ^ 32" by (simp add: up push_bit_eq_mult take_bit_eq_mod)
    also have "\<dots> = p * 2 ^ (m - k)" using pm32 by simp
    finally show ?thesis .
  qed
  let ?y = "p * 2 ^ (m - k) XOR ((?x + 1) * 2 ^ m - 1)"
  have uy: "unat (push_bit (m - k) (word_of_nat p) XOR (push_bit m (v + 1) - 1)) = ?y"
    by (simp only: unsigned_xor_eq P X)
  have d1: "drop_bit m (p * 2 ^ (m - k)) = 0" using pm by (simp add: drop_bit_eq_div)
  have one: "(1::nat) \<le> 2 ^ m" by simp
  have ex: "(?x + 1) * 2 ^ m = 2 ^ m * ?x + 2 ^ m" by (simp add: algebra_simps)
  have "((?x + 1) * 2 ^ m - 1) div 2 ^ m = ?x"
  proof (rule div_nat_eqI)
    show "2 ^ m * ?x \<le> (?x + 1) * 2 ^ m - 1" unfolding ex using one by linarith
    show "(?x + 1) * 2 ^ m - 1 < 2 ^ m * Suc ?x" using one by (simp add: algebra_simps)
  qed
  then have d2: "drop_bit m ((?x + 1) * 2 ^ m - 1) = ?x"
    by (simp only: drop_bit_eq_div)
  have "drop_bit m ?y = ?x" by (simp only: drop_bit_xor d1 d2) simp
  then have dy: "?y div 2 ^ m = ?x" by (simp add: drop_bit_eq_div)
  have "?y < 2 ^ m + (?y div 2 ^ m) * 2 ^ m"
    by (rule dividend_less_div_times) simp
  then have "?y < 2 ^ m + ?x * 2 ^ m" by (simp only: dy)
  then have "?y < (?x + 1) * 2 ^ m" by (simp only: add_mult_distrib mult_1 add.commute)
  also from xr have "\<dots> \<le> unat r * 2 ^ m" by (intro mult_le_mono1) simp
  finally show ?thesis by (simp add: word_less_nat_alt uy pbr)
qed

lemma renorm_mult_bound:
  fixes r :: "32 word"
  assumes nz: "r \<noteq> 0" and lt: "r < 2 ^ 16"
  shows "unat r * 2 ^ (15 - flog2 (unat r)) < 2 ^ 16"
proof -
  let ?k = "flog2 (unat r)"
  from lt have "unat r < 2 ^ 16" by (simp add: word_less_nat_alt)
  then have "?k < 16" by (rule flog2_le) simp
  then have k15: "?k \<le> 15" by simp
  from nz have "0 < unat r" by (simp add: unat_gt_0)
  from flog2_bounds [OF this] have hi: "unat r < 2 ^ Suc ?k" by simp
  have q: "(2::nat) ^ Suc ?k * 2 ^ (15 - ?k) = 2 ^ 16" using k15 by (simp flip: power_add)
  from hi have "unat r * 2 ^ (15 - ?k) < 2 ^ Suc ?k * 2 ^ (15 - ?k)"
    by (rule mult_less_mono1) simp
  with q show ?thesis by (simp only:)
qed

lemma symbol_renorm_step:
  assumes ok: "symbol_renorm sd1 = (Inr u, sd')"
    and acc: "int (unat (bitpos (br sd1))) + max 0 (symbol_max_bits sd1) \<le> 8 * int (length (data (br sd1)))"
    and sz: "length (data (br sd1)) < 2 ^ 60"
  shows "data (br sd') = data (br sd1)"
    and "symbol_max_bits sd' = symbol_max_bits sd1 - int (renorm_bits sd1)"
    and "unat (bitpos (br sd')) = unat (bitpos (br sd1)) + renorm_numBits sd1"
    and "symbol_value sd1 < symbol_range sd1 \<Longrightarrow> symbol_value sd' < symbol_range sd'"
    and "symbol_range sd' < 2 ^ 16"
proof -
  from symbol_renorm_Inr_range [OF ok] have nz: "symbol_range sd1 \<noteq> 0" and lt: "symbol_range sd1 < 2 ^ 16"
    by simp_all
  from sz have sz': "8 * length (data (br sd1)) < 2 ^ 64" by simp
  note eq = symbol_renorm_eq [OF nz lt acc sz']
  from ok eq have sd': "sd' = sd1\<lparr>symbol_range := push_bit (renorm_bits sd1) (symbol_range sd1),
         br := (br sd1)\<lparr>bitpos := bitpos (br sd1) + word_of_nat (renorm_numBits sd1)\<rparr>,
         symbol_value := push_bit (renorm_bits sd1 - renorm_numBits sd1)
              (word_of_nat (bits_value (take (renorm_numBits sd1)
                 (drop (unat (bitpos (br sd1))) (bits_of_bytes (data (br sd1)))))))
            XOR (push_bit (renorm_bits sd1) (symbol_value sd1 + 1) - 1),
         symbol_max_bits := symbol_max_bits sd1 - int (renorm_bits sd1)\<rparr>" by simp
  show "data (br sd') = data (br sd1)" by (simp add: sd')
  show "symbol_max_bits sd' = symbol_max_bits sd1 - int (renorm_bits sd1)" by (simp add: sd')
  have nbl: "int (renorm_numBits sd1) \<le> max 0 (symbol_max_bits sd1)" by (simp add: renorm_numBits_def)
  with acc have a1: "unat (bitpos (br sd1)) + renorm_numBits sd1 \<le> 8 * length (data (br sd1))" by linarith
  with sz' have lt64: "unat (bitpos (br sd1)) + renorm_numBits sd1 < 2 ^ 64" by simp
  then have "renorm_numBits sd1 < 2 ^ 64" by simp
  then have un: "unat (word_of_nat (renorm_numBits sd1) :: 64 word) = renorm_numBits sd1"
    by (simp add: unat_of_nat)
  from lt64 have "unat (bitpos (br sd1)) + unat (word_of_nat (renorm_numBits sd1) :: 64 word) < 2 ^ LENGTH(64)"
    by (simp add: un)
  then have "unat (bitpos (br sd1) + word_of_nat (renorm_numBits sd1)) =
      unat (bitpos (br sd1)) + unat (word_of_nat (renorm_numBits sd1) :: 64 word)"
    by (simp only: unat_add_lem)
  then show "unat (bitpos (br sd')) = unat (bitpos (br sd1)) + renorm_numBits sd1"
    by (simp add: sd' un)
  from renorm_range [OF nz renorm_bits_ok(1) [OF lt]] renorm_bits_ok(2) [OF lt]
  show "symbol_range sd' < 2 ^ 16" by (simp add: sd' renorm_bits_def)
  assume vr: "symbol_value sd1 < symbol_range sd1"
  have km: "renorm_numBits sd1 \<le> renorm_bits sd1" by (simp add: renorm_numBits_def)
  let ?bs = "take (renorm_numBits sd1) (drop (unat (bitpos (br sd1))) (bits_of_bytes (data (br sd1))))"
  have "bits_value ?bs < 2 ^ length ?bs" by (rule bits_value_less)
  also have "(2::nat) ^ length ?bs \<le> 2 ^ renorm_numBits sd1" by (intro power_increasing) simp_all
  finally have p: "bits_value ?bs < 2 ^ renorm_numBits sd1" .
  from renorm_mult_bound [OF nz lt] have rb: "unat (symbol_range sd1) * 2 ^ renorm_bits sd1 < 2 ^ 16"
    by (simp add: renorm_bits_def)
  from renorm_value_less [OF vr rb p km] show "symbol_value sd' < symbol_range sd'" by (simp add: sd')
qed

lemma read_symbol_step:
  assumes rd: "av1_symbol_read_symbol sd cdf n = (Inr s, sd', cdf')"
    and inv: "sd_inv sd"
  shows "sd_inv sd'" and "data (br sd') = data (br sd)"
    and "\<exists>bits\<le>15. symbol_max_bits sd' = symbol_max_bits sd - int bits \<and>
           unat (bitpos (br sd')) = unat (bitpos (br sd)) + nat (min (int bits) (max 0 (symbol_max_bits sd)))"
proof -
  from rd obtain symbol prev cur u where
    n1: "1 < n" and last: "cdf ! (n - 1) = 2 ^ 15" and
    w: "cdf_walk (symbol_range sd) (symbol_value sd) cdf n 0 (symbol_range sd) = Some (symbol, prev, cur)" and
    rn: "symbol_renorm (sd\<lparr>symbol_range := prev - cur, symbol_value := symbol_value sd - cur\<rparr>) = (Inr u, sd')"
    by (rule read_symbol_Inr)
  let ?sd1 = "sd\<lparr>symbol_range := prev - cur, symbol_value := symbol_value sd - cur\<rparr>"
  from inv have acc: "int (unat (bitpos (br ?sd1))) + max 0 (symbol_max_bits ?sd1) \<le> 8 * int (length (data (br ?sd1)))"
    and sz: "length (data (br ?sd1)) < 2 ^ 60" and vr: "symbol_value sd < symbol_range sd"
    by (simp_all add: sd_inv_def)
  from n1 have "0 < n" by simp
  from cdf_walk_total [OF this last, of "symbol_range sd" "symbol_value sd" "symbol_range sd"] w
  have cv: "cur \<le> symbol_value sd" and
    pv: "0 < symbol \<longrightarrow> symbol_value sd < prev" and p0: "symbol = 0 \<longrightarrow> prev = symbol_range sd"
    by auto
  have vp: "symbol_value sd < prev" using pv p0 vr by (cases "symbol = 0") simp_all
  from cv vp have cp: "cur \<le> prev" by simp
  have "unat (symbol_value sd - cur) = unat (symbol_value sd) - unat cur" using cv by (rule unat_sub)
  moreover have "unat (prev - cur) = unat prev - unat cur" using cp by (rule unat_sub)
  moreover from cv vp have "unat cur \<le> unat (symbol_value sd)" "unat (symbol_value sd) < unat prev"
    by (simp_all add: word_le_nat_alt word_less_nat_alt)
  ultimately have "symbol_value ?sd1 < symbol_range ?sd1" by (simp add: word_less_nat_alt)
  note st = symbol_renorm_step [OF rn acc sz] this
  from st(1,2,3,5) st(4) [OF st(6)] inv show "sd_inv sd'"
    by (auto simp: sd_inv_def renorm_numBits_def min_def max_def)
  from st(1) show "data (br sd') = data (br sd)" by simp
  have "renorm_bits ?sd1 \<le> 15" by (simp add: renorm_bits_def)
  with st(2,3) show "\<exists>bits\<le>15. symbol_max_bits sd' = symbol_max_bits sd - int bits \<and>
           unat (bitpos (br sd')) = unat (bitpos (br sd)) + nat (min (int bits) (max 0 (symbol_max_bits sd)))"
    by (intro exI [of _ "renorm_bits ?sd1"]) (simp add: renorm_numBits_def)
qed

lemma sint_size8_le: "sint (8 * (word_of_nat n :: 32 word)) \<le> 8 * int n"
proof -
  have e: "8 * (word_of_nat n :: 32 word) = word_of_nat (8 * n)" by simp
  have "sint (word_of_nat (8 * n) :: 32 word) = signed_take_bit (LENGTH(32) - Suc 0) (int (8 * n))"
    using signed_of_nat [where ?'a = int and ?'b = 32, of "8 * n"] by simp
  also have "\<dots> \<le> int (8 * n)"
    by (simp only: signed_take_bit_int_less_eq_self_iff) simp
  finally show ?thesis unfolding e by simp
qed

lemma xor_less_2p15:
  fixes a b :: "32 word"
  assumes "a < 2 ^ 15" and "b < 2 ^ 15"
  shows "a XOR b < 2 ^ 15"
proof -
  from assms have "unat a < 2 ^ 15" "unat b < 2 ^ 15" by (simp_all add: word_less_nat_alt)
  then have "take_bit 15 (unat a) = unat a" "take_bit 15 (unat b) = unat b"
    by (simp_all add: take_bit_nat_eq_self_iff)
  then have "take_bit 15 (unat a XOR unat b) = unat a XOR unat b" by (simp only: take_bit_xor)
  then have "unat a XOR unat b < 2 ^ 15" by (simp only: take_bit_nat_eq_self_iff)
  then show ?thesis by (simp add: word_less_nat_alt unsigned_xor_eq)
qed

lemma init_inv:
  assumes "av1_symbol_init d dcu = Inr sd" and len: "length d < 2 ^ 60"
  shows "sd_inv sd" and "data (br sd) = d"
proof -
  let ?k = "min 15 (8 * length d)"
  let ?buf = "bits_value (take ?k (bits_of_bytes d))"
  from len have l: "length d < 2 ^ 61" by simp
  from assms(1) init_eq [OF l, of dcu] have sd: "sd =
    \<lparr>br = \<lparr>data = d, bitpos = word_of_nat ?k\<rparr>,
         symbol_value = (2 ^ 15 - 1) XOR push_bit (15 - ?k) (word_of_nat ?buf),
         symbol_range = 2 ^ 15,
         symbol_max_bits = sint (8 * (word_of_nat (length d) :: 32 word)) - 15,
         disable_cdf_update = dcu\<rparr>" by simp
  show "data (br sd) = d" by (simp add: sd)
  have bk: "?buf < 2 ^ ?k" by (rule bits_value_take_less)
  then have "?buf * 2 ^ (15 - ?k) < 2 ^ ?k * 2 ^ (15 - ?k)" by (rule mult_less_mono1) simp
  also have "(2::nat) ^ ?k * 2 ^ (15 - ?k) = 2 ^ 15" by (simp flip: power_add)
  finally have pb: "?buf * 2 ^ (15 - ?k) < 2 ^ 15" .
  have "?buf \<le> ?buf * 2 ^ (15 - ?k)" by simp
  from this pb have "?buf < 2 ^ 15" by (rule le_less_trans)
  then have ub: "unat (word_of_nat ?buf :: 32 word) = ?buf" by (simp add: unat_of_nat)
  have "unat (push_bit (15 - ?k) (word_of_nat ?buf :: 32 word)) =
      take_bit LENGTH(32) (push_bit (15 - ?k) (unat (word_of_nat ?buf :: 32 word)))"
    by (rule unsigned_push_bit_eq)
  also have "\<dots> = (?buf * 2 ^ (15 - ?k)) mod 2 ^ 32" by (simp add: ub push_bit_eq_mult take_bit_eq_mod)
  also have "\<dots> = ?buf * 2 ^ (15 - ?k)" using pb by simp
  finally have "unat (push_bit (15 - ?k) (word_of_nat ?buf :: 32 word)) < 2 ^ 15" using pb by simp
  then have "push_bit (15 - ?k) (word_of_nat ?buf :: 32 word) < 2 ^ 15" by (simp add: word_less_nat_alt)
  moreover have "(2 ^ 15 - 1 :: 32 word) < 2 ^ 15" by simp
  ultimately have v: "(2 ^ 15 - 1) XOR push_bit (15 - ?k) (word_of_nat ?buf :: 32 word) < 2 ^ 15"
    by (intro xor_less_2p15)
  have uk: "unat (word_of_nat ?k :: 64 word) = ?k" by (simp add: unat_of_nat)
  have acc: "int ?k + max 0 (sint (8 * (word_of_nat (length d) :: 32 word)) - 15) \<le> 8 * int (length d)"
    using sint_size8_le [of "length d"] by (auto simp: min_def max_def)
  show "sd_inv sd"
    unfolding sd_inv_def sd using v acc len by (simp add: uk)
qed

lemma read_bool_step:
  assumes rd: "av1_symbol_read_bool sd = (Inr b, sd')" and inv: "sd_inv sd"
  shows "sd_inv sd'" and "data (br sd') = data (br sd)"
    and "\<exists>bits\<le>15. symbol_max_bits sd' = symbol_max_bits sd - int bits \<and>
           unat (bitpos (br sd')) = unat (bitpos (br sd)) + nat (min (int bits) (max 0 (symbol_max_bits sd)))"
proof -
  let ?sd0 = "sd\<lparr>disable_cdf_update := True\<rparr>"
  from rd obtain sd2 cdf' where
    r: "av1_symbol_read_symbol ?sd0 [2 ^ 14, 2 ^ 15, 0] 2 = (Inr b, sd2, cdf')" and
    e: "sd' = sd2\<lparr>disable_cdf_update := disable_cdf_update sd\<rparr>"
    by (auto simp: av1_symbol_read_bool_def Let_def split: prod.splits)
  from inv have i0: "sd_inv ?sd0" by (simp add: sd_inv_def)
  note st = read_symbol_step [OF r i0]
  from st(1) show "sd_inv sd'" by (simp add: e sd_inv_def)
  from st(2) show "data (br sd') = data (br sd)" by (simp add: e)
  from st(3) show "\<exists>bits\<le>15. symbol_max_bits sd' = symbol_max_bits sd - int bits \<and>
           unat (bitpos (br sd')) = unat (bitpos (br sd)) + nat (min (int bits) (max 0 (symbol_max_bits sd)))"
    by (simp add: e)
qed

lemma exit_inv_step:
  assumes "exit_inv d sd" and "data (br sd') = data (br sd)"
    and "\<exists>bits\<le>15. symbol_max_bits sd' = symbol_max_bits sd - int bits \<and>
           unat (bitpos (br sd')) = unat (bitpos (br sd)) + nat (min (int bits) (max 0 (symbol_max_bits sd)))"
  shows "exit_inv d sd'"
proof -
  from assms(3) obtain bits where b: "bits \<le> 15" "symbol_max_bits sd' = symbol_max_bits sd - int bits"
    "unat (bitpos (br sd')) = unat (bitpos (br sd)) + nat (min (int bits) (max 0 (symbol_max_bits sd)))"
    by blast
  have "uint (bitpos (br sd')) = int (unat (bitpos (br sd')))" by simp
  also have "\<dots> = int (unat (bitpos (br sd))) + int (nat (min (int bits) (max 0 (symbol_max_bits sd))))"
    by (simp only: b(3) of_nat_add)
  also have "\<dots> = uint (bitpos (br sd)) + min (int bits) (max 0 (symbol_max_bits sd))" by simp
  finally have u: "uint (bitpos (br sd')) = uint (bitpos (br sd)) + min (int bits) (max 0 (symbol_max_bits sd))" .
  from assms(1) have e: "data (br sd) = d" "uint (bitpos (br sd)) + max 0 (symbol_max_bits sd) = 8 * int (length d)"
    "symbol_max_bits sd \<le> 8 * int (length d) - 15" by (simp_all add: exit_inv_def)
  have "uint (bitpos (br sd')) + max 0 (symbol_max_bits sd') = 8 * int (length d)"
    unfolding u b(2) using e(2) by (simp add: min_def max_def split: if_splits)
  moreover have "symbol_max_bits sd' \<le> 8 * int (length d) - 15" unfolding b(2) using e(3) by simp
  ultimately show ?thesis using assms(2) e(1) by (simp add: exit_inv_def)
qed

lemma read_literal_loop_step:
  assumes "read_literal_loop sd k x = (Inr y, sd')" and "sd_inv sd" and "exit_inv d sd"
  shows "sd_inv sd' \<and> exit_inv d sd'"
  using assms
proof (induction k arbitrary: sd x)
  case 0
  then show ?case by simp
next
  case (Suc k)
  from Suc.prems(1) obtain b sd1 where
    rb: "av1_symbol_read_bool sd = (Inr b, sd1)" and
    rl: "read_literal_loop sd1 k (push_bit 1 x OR (b AND 1)) = (Inr y, sd')"
    by (auto split: prod.splits sum.splits)
  note st = read_bool_step [OF rb Suc.prems(2)]
  from exit_inv_step [OF Suc.prems(3) st(2,3)] have "exit_inv d sd1" .
  from Suc.IH [OF rl st(1) this] show ?case .
qed

lemma reachable_inv:
  assumes "reachable d sd" and "length d < 2 ^ 28"
  shows "sd_inv sd \<and> exit_inv d sd"
  using assms
proof (induction rule: reachable.induct)
  case (r_init d dcu sd)
  from r_init(2) have l60: "length d < 2 ^ 60" by simp
  from r_init(2) have l61: "length d < 2 ^ 61" by simp
  note i = init_inv [OF r_init(1) l60]
  from r_init(1) init_eq [OF l61, of dcu] have sd: "symbol_max_bits sd = sint (8 * (word_of_nat (length d) :: 32 word)) - 15"
    "bitpos (br sd) = word_of_nat (min 15 (8 * length d))" by auto
  have uk: "unat (word_of_nat (min 15 (8 * length d)) :: 64 word) = min 15 (8 * length d)"
    by (simp add: unat_of_nat)
  have "exit_inv d sd"
    unfolding exit_inv_def sd uk sint_size8 [OF r_init(2)] using i(2) by (auto simp: min_def max_def)
  with i(1) show ?case by simp
next
  case (r_symbol d sd cdf n s sd' cdf')
  then have i: "sd_inv sd" "exit_inv d sd" by simp_all
  note st = read_symbol_step [OF r_symbol(2) i(1)]
  from st(1) exit_inv_step [OF i(2) st(2,3)] show ?case by simp
next
  case (r_bool d sd b sd')
  then have i: "sd_inv sd" "exit_inv d sd" by simp_all
  note st = read_bool_step [OF r_bool(2) i(1)]
  from st(1) exit_inv_step [OF i(2) st(2,3)] show ?case by simp
next
  case (r_literal d sd n x sd')
  then have i: "sd_inv sd" "exit_inv d sd" by simp_all
  from r_literal(2) have "read_literal_loop sd n 0 = (Inr x, sd')"
    by (auto simp: av1_symbol_read_literal_def split: if_splits)
  from read_literal_loop_step [OF this i] show ?case .
qed

lemma exit_padding_loop_None:
  assumes "unat e \<le> 8 * length d"
  shows "exit_padding_loop d pos e = None \<longleftrightarrow> (\<forall>p. unat pos \<le> p \<and> p < unat e \<longrightarrow> \<not> bits_of_bytes d ! p)"
  using assms
proof (induction m \<equiv> "unat e - unat pos" arbitrary: pos)
  case 0
  then have np: "\<not> pos < e" by (simp add: word_less_nat_alt)
  from 0 have v: "\<forall>p. unat pos \<le> p \<and> p < unat e \<longrightarrow> \<not> bits_of_bytes d ! p" by auto
  have "exit_padding_loop d pos e = None" using np by (subst exit_padding_loop.simps) simp
  with v show ?case by simp
next
  case (Suc m)
  then have lt: "pos < e" by (simp add: word_less_nat_alt)
  then have ul: "unat pos < unat e" by (simp add: word_less_nat_alt)
  have b: "unat e < 2 ^ LENGTH(64)" by (rule unsigned_less)
  from ul b have "unat pos + 1 < 2 ^ LENGTH(64)" by linarith
  then have "unat pos + unat (1 :: 64 word) < 2 ^ LENGTH(64)" by simp
  then have "unat (pos + 1) = unat pos + unat (1 :: 64 word)" by (simp only: unat_add_lem)
  then have u1: "unat (pos + 1) = Suc (unat pos)" by simp
  from ul Suc.prems have inr: "unat pos < 8 * length d" by simp
  then have g: "get_bit_at d pos = Some (of_bool (bits_of_bytes d ! unat pos))" by (simp add: get_bit_at_eq)
  from Suc.hyps(2) u1 have m: "m = unat e - unat (pos + 1)" by simp
  note ih = Suc.hyps(1) [OF m Suc.prems]
  have unf: "exit_padding_loop d pos e =
      (if bits_of_bytes d ! unat pos then Some ''nonzero trailing padding bit'' else exit_padding_loop d (pos + 1) e)"
    using lt by (subst exit_padding_loop.simps) (simp add: g)
  show ?case
  proof (cases "bits_of_bytes d ! unat pos")
    case True
    with ul show ?thesis unfolding unf by auto
  next
    case False
    have "(\<forall>p. unat pos \<le> p \<and> p < unat e \<longrightarrow> \<not> bits_of_bytes d ! p) \<longleftrightarrow>
          (\<forall>p. Suc (unat pos) \<le> p \<and> p < unat e \<longrightarrow> \<not> bits_of_bytes d ! p)"
      using False by (metis Suc_leI le_neq_implies_less Suc_leD)
    with False ih show ?thesis unfolding unf u1 by simp
  qed
qed

lemma exit_fails_below:
  "symbol_max_bits sd < - 14 \<Longrightarrow> av1_symbol_exit sd = (Inl ''SymbolMaxBits < -14 at exit'', sd)"
  by (simp add: av1_symbol_exit_def)

lemma exit_under_inv:
  assumes ei: "exit_inv d sd" and len: "length d < 2 ^ 28" and smb: "- 14 \<le> symbol_max_bits sd"
  shows "fst (av1_symbol_exit sd) = Inr () \<longleftrightarrow>
     trailing_bits_ok d (unat (bitpos (br sd)) - nat (max 0 (min 15 (symbol_max_bits sd + 15))))
        (unat (bitpos (br sd)) + nat (max 0 (symbol_max_bits sd)))"
proof -
  let ?s = "symbol_max_bits sd"
  define P where "P = unat (bitpos (br sd))"
  let ?L = "length d"
  define M where "M = nat (max 0 (min 15 (?s + 15)))"
  let ?bits = "bits_of_bytes d"
  from ei have dd: "data (br sd) = d" and acc: "int P + max 0 ?s = 8 * int ?L" and up: "?s \<le> 8 * int ?L - 15"
    by (simp_all add: exit_inv_def P_def)
  note Pd = P_def [symmetric]
  from len have L: "8 * ?L < 2 ^ 31" by simp
  have f1: "\<not> ?s < - 14" using smb by simp
  have f2: "(if ?s + 15 < 15 then (if ?s + 15 < 0 then 0 else nat (?s + 15)) else 15) = M"
    by (auto simp: M_def min_def max_def)
  have f2': "(if ?s < 0 then nat (?s + 15) else 15) = M"
    using smb by (auto simp: M_def min_def max_def)
  have M1: "1 \<le> M" "M \<le> 15" using smb by (auto simp: M_def min_def max_def)
  have MP: "M \<le> P" using acc up smb by (auto simp: M_def min_def max_def split: if_splits)
  have PL: "P \<le> 8 * ?L" using acc by (auto simp: max_def split: if_splits)
  have uM: "unat (word_of_nat M :: 64 word) = M" using M1 by (simp add: unat_of_nat)
  have f3: "\<not> bitpos (br sd) < word_of_nat M" using MP by (simp add: word_less_nat_alt uM Pd)
  have "word_of_nat M \<le> bitpos (br sd)" using MP by (simp add: word_le_nat_alt uM Pd)
  from unat_sub [OF this] have utp: "unat (bitpos (br sd) - word_of_nat M) = P - M" by (simp add: uM Pd)
  define sd1 where "sd1 = (if 0 < ?s
      then sd\<lparr>br := (br sd)\<lparr>bitpos := bitpos (br sd) + word_of_int ?s\<rparr>\<rparr> else sd)"
  have d1: "data (br sd1) = d" by (simp add: sd1_def dd)
  have uE: "unat (bitpos (br sd1)) = 8 * ?L"
  proof (cases "0 < ?s")
    case True
    with acc have e: "int P + ?s = 8 * int ?L" by simp
    from e True have e': "P + nat ?s = 8 * ?L" by linarith
    then have "nat ?s \<le> 8 * ?L" by linarith
    from this L have "nat ?s < 2 ^ 31" by (rule le_less_trans)
    then have "nat ?s < 2 ^ 64" by simp
    then have un: "unat (word_of_nat (nat ?s) :: 64 word) = nat ?s" by (simp add: unat_of_nat)
    from L have "P + nat ?s < 2 ^ 31" by (simp only: e')
    then have "P + nat ?s < 2 ^ 64" by simp
    then have "unat (bitpos (br sd)) + unat (word_of_nat (nat ?s) :: 64 word) < 2 ^ LENGTH(64)" by (simp add: un Pd)
    then have "unat (bitpos (br sd) + word_of_nat (nat ?s)) = unat (bitpos (br sd)) + unat (word_of_nat (nat ?s) :: 64 word)"
      by (simp only: unat_add_lem)
    then have "unat (bitpos (br sd) + word_of_nat (nat ?s)) = 8 * ?L" by (simp only: un Pd e')
    moreover have "bitpos (br sd1) = bitpos (br sd) + word_of_nat (nat ?s)" using True by (simp add: sd1_def)
    ultimately show ?thesis by (simp only:)
  next
    case False
    with acc have "int P = 8 * int ?L" by simp
    then have "P = 8 * ?L" by linarith
    with False show ?thesis by (simp add: sd1_def Pd)
  qed
  have "bitpos (br sd1) AND 7 = take_bit 3 (bitpos (br sd1))" by (simp add: take_bit_eq_mask mask_eq_exp_minus_1)
  then have "unat (bitpos (br sd1) AND 7) = (8 * ?L) mod 8" by (simp add: take_bit_eq_mod unat_mod uE)
  then have "unat (bitpos (br sd1) AND 7) = 0" by simp
  then have f5: "bitpos (br sd1) AND 7 = 0" by (simp only: unat_eq_0)
  have "(word_of_nat ?L :: 64 word) * 8 = word_of_nat (?L * 8)" by simp
  then have "unat ((word_of_nat ?L :: 64 word) * 8) = (?L * 8) mod 2 ^ 64"
    by (simp only: unat_of_nat len_num1 len_bit0 mult_numeral_1_right mult_numeral_1 semiring_norm
          numeral_times_numeral)
  with L have uT: "unat ((word_of_nat ?L :: 64 word) * 8) = 8 * ?L" by simp
  have f6: "\<not> (word_of_nat ?L :: 64 word) * 8 < bitpos (br sd1)" by (simp add: word_less_nat_alt uT uE)
  have tpl: "P - M < 8 * ?L" using M1 MP PL by linarith
  have f7: "get_bit_at d (bitpos (br sd) - word_of_nat M) = Some (of_bool (?bits ! (P - M)))"
    using tpl by (simp add: get_bit_at_eq utp)
  have b: "unat (bitpos (br sd1)) < 2 ^ LENGTH(64)" by (rule unsigned_less)
  from tpl uE b have "(P - M) + 1 < 2 ^ LENGTH(64)" by linarith
  then have "unat (bitpos (br sd) - word_of_nat M) + unat (1 :: 64 word) < 2 ^ LENGTH(64)" by (simp add: utp)
  then have "unat (bitpos (br sd) - word_of_nat M + 1) = unat (bitpos (br sd) - word_of_nat M) + unat (1 :: 64 word)"
    by (simp only: unat_add_lem)
  then have utp1: "unat (bitpos (br sd) - word_of_nat M + 1) = Suc (P - M)" by (simp add: utp)
  have "unat (bitpos (br sd1)) \<le> 8 * ?L" by (simp add: uE)
  from exit_padding_loop_None [OF this, of "bitpos (br sd) - word_of_nat M + 1"]
  have pl: "exit_padding_loop d (bitpos (br sd) - word_of_nat M + 1) (bitpos (br sd1)) = None \<longleftrightarrow>
      (\<forall>p. Suc (P - M) \<le> p \<and> p < 8 * ?L \<longrightarrow> \<not> ?bits ! p)"
    by (simp only: utp1 uE)
  have ex: "av1_symbol_exit sd =
     (if \<not> ?bits ! (P - M) then (Inl ''trailing bit not 1'', sd1)
      else (case exit_padding_loop d (bitpos (br sd) - word_of_nat M + 1) (bitpos (br sd1)) of
              Some e \<Rightarrow> (Inl e, sd1) | None \<Rightarrow> (Inr (), sd1)))"
    unfolding av1_symbol_exit_def Let_def sd1_def [symmetric]
    using f1 f3 f5 f6 by (simp add: f2 f2' d1 f7 dd split del: if_split cong: if_cong)
  have e8: "P + nat (max 0 ?s) = 8 * ?L" using acc by (auto simp: max_def split: if_splits)
  show ?thesis
    unfolding ex trailing_bits_ok_def Pd e8 M_def [symmetric]
    using tpl pl by (auto split: option.splits)
qed

text \<open>
  Claim C5 (as amended): for every state reached from an initialisation on a buffer of fewer than
  \<open>2 ^ 28\<close> bytes by successful reads, with \<open>symbol_max_bits\<close> at least \<open>-14\<close>, the exit
  succeeds exactly when the bit at the trailing position (the bit position minus
  \<open>min 15 (symbol_max_bits + 15)\<close>) is 1 and every bit after it up to the padding end (the bit
  position advanced by \<open>max 0 symbol_max_bits\<close>) is 0; and on any state whose
  \<open>symbol_max_bits\<close> is below \<open>-14\<close> the exit fails.
\<close>

theorem exit_trailing_bit_law:
  assumes "reachable d sd" and "length d < 2 ^ 28"
  shows "(- 14 \<le> symbol_max_bits sd \<longrightarrow>
           (fst (av1_symbol_exit sd) = Inr () \<longleftrightarrow>
            trailing_bits_ok d (unat (bitpos (br sd)) - nat (max 0 (min 15 (symbol_max_bits sd + 15))))
              (unat (bitpos (br sd)) + nat (max 0 (symbol_max_bits sd))))) \<and>
         (symbol_max_bits sd0 < - 14 \<longrightarrow>
           fst (av1_symbol_exit sd0) = Inl ''SymbolMaxBits < -14 at exit'')"
proof -
  from reachable_inv [OF assms] have "exit_inv d sd" by simp
  from exit_under_inv [OF this assms(2)] exit_fails_below [of sd0] show ?thesis by simp
qed

lemma init_kat80: "av1_symbol_init [0x80, 0] False = Inr kat_sd80"
  by code_simp

lemma trailing_kat80: "trailing_bits_ok [0x80, 0] 0 16"
  by code_simp

text \<open>
  The law at the state left by the initialisation on the two bytes \<open>0x80 0x00\<close> (trailing bit at
  position 0, padding up to bit 16), and the failure on the state of an empty buffer.
\<close>

theorem exit_trailing_bit_law_witness:
  "reachable [0x80, 0] kat_sd80 \<and> - 14 \<le> symbol_max_bits kat_sd80 \<and>
   trailing_bits_ok [0x80, 0] 0 16 \<and> fst (av1_symbol_exit kat_sd80) = Inr () \<and>
   symbol_max_bits kat_sd_empty < - 14 \<and>
   fst (av1_symbol_exit kat_sd_empty) = Inl ''SymbolMaxBits < -14 at exit''"
proof -
  have r: "reachable [0x80, 0] kat_sd80" using init_kat80 by (rule r_init)
  have l: "length [0x80, 0 :: 8 word] < 2 ^ 28" by simp
  have a: "- 14 \<le> symbol_max_bits kat_sd80" by (simp add: kat_sd80_def)
  have b: "symbol_max_bits kat_sd_empty < - 14" by (simp add: kat_sd_empty_def)
  have tp: "unat (bitpos (br kat_sd80)) - nat (max 0 (min 15 (symbol_max_bits kat_sd80 + 15))) = 0"
    "unat (bitpos (br kat_sd80)) + nat (max 0 (symbol_max_bits kat_sd80)) = 16"
    by (simp_all add: kat_sd80_def)
  from exit_trailing_bit_law [OF r l, of kat_sd_empty] a b trailing_kat80
  show ?thesis unfolding tp using r by simp
qed

lemma bits_of_bytes_Cons: "bits_of_bytes (b # bs) = bits_of_byte b @ bits_of_bytes bs"
  by (simp add: bits_of_bytes_def)

lemma bits_of_byte_1: "bits_of_byte 1 = [False, False, False, False, False, False, False, True]"
  by code_simp

lemma bits_kat_big: "bits_of_bytes kat_big =
   [False, False, False, False, False, False, False, True] @ replicate (8 * 2 ^ 29) False"
  by (simp only: kat_big_def bits_of_bytes_Cons bits_of_byte_1 bits_of_bytes_replicate_zero)

lemma length_kat_big: "length kat_big = 2 ^ 29 + 1"
  by (simp add: kat_big_def)

lemma bits_value_kat15:
  "bits_value [False, False, False, False, False, False, False, True,
               False, False, False, False, False, False, False] = 128"
  by code_simp

lemma replicate_7_False: "replicate 7 False = [False, False, False, False, False, False, False]"
  by code_simp

lemma init_kat_big: "av1_symbol_init kat_big False = Inr kat_sd_big"
proof -
  have l: "length kat_big < 2 ^ 61" by (simp add: length_kat_big)
  have m: "min 15 (8 * length kat_big) = 15" by (simp add: length_kat_big)
  have t: "take 15 (bits_of_bytes kat_big) =
      [False, False, False, False, False, False, False, True,
               False, False, False, False, False, False, False]"
    by (simp add: bits_kat_big replicate_7_False)
  have s: "sint (8 * (word_of_nat (length kat_big) :: 32 word)) = 8" by (simp add: length_kat_big)
  show ?thesis
    unfolding init_eq [OF l] m s t bits_value_kat15 kat_sd_big_def
    by simp
qed

lemma trailing_kat_big: "trailing_bits_ok kat_big 7 15"
  unfolding trailing_bits_ok_def bits_kat_big
  by (auto simp: length_kat_big nth_append nth_Cons')

lemma exit_kat_big: "av1_symbol_exit kat_sd_big = (Inl ''exit_symbol ended unaligned'', kat_sd_big)"
  by (simp add: av1_symbol_exit_def kat_sd_big_def)

text \<open>
  Without the bound on the buffer the law of claim C5 fails: on a buffer of \<open>2 ^ 29 + 1\<close> bytes
  the 32-bit size product wraps to 8, the initialisation leaves \<open>symbol_max_bits = -7\<close> at bit
  position 15, the trailing bit (position 7) is 1 and the bits 8 to 14 are 0, and yet the exit
  fails because the padding end 15 is not a byte boundary.
\<close>

theorem exit_large_buffer_counterexample:
  "reachable kat_big kat_sd_big \<and> - 14 \<le> symbol_max_bits kat_sd_big \<and>
   trailing_bits_ok kat_big (unat (bitpos (br kat_sd_big)) - nat (max 0 (min 15 (symbol_max_bits kat_sd_big + 15))))
      (unat (bitpos (br kat_sd_big)) + nat (max 0 (symbol_max_bits kat_sd_big))) \<and>
   fst (av1_symbol_exit kat_sd_big) = Inl ''exit_symbol ended unaligned''"
proof -
  have r: "reachable kat_big kat_sd_big" using init_kat_big by (rule r_init)
  have tp: "unat (bitpos (br kat_sd_big)) - nat (max 0 (min 15 (symbol_max_bits kat_sd_big + 15))) = 7"
    "unat (bitpos (br kat_sd_big)) + nat (max 0 (symbol_max_bits kat_sd_big)) = 15"
    by (simp_all add: kat_sd_big_def)
  show ?thesis unfolding tp exit_kat_big using r trailing_kat_big by (simp add: kat_sd_big_def)
qed

subsection \<open>Failures and the decoder state\<close>

lemma exit_unchanged_but_bitpos:
  "av1_symbol_exit sd = (r, sd') \<Longrightarrow> unchanged_but_bitpos sd sd'"
  by (auto simp: av1_symbol_exit_def Let_def unchanged_but_bitpos_def split: if_splits option.splits)

lemma cdf_threshold_small:
  assumes r: "rng < 2 ^ 16" and n: "n \<le> 64" and c: "cdf ! i \<le> 2 ^ 15"
  shows "cdf_threshold rng cdf n i < 2 ^ 16"
proof -
  define f :: "32 word" where "f = 2 ^ 15 - ucast (cdf ! i)"
  have uc: "unat (ucast (cdf ! i) :: 32 word) = unat (cdf ! i)" by (rule unat_ucast_16_32)
  from c have cu: "unat (cdf ! i) \<le> 32768" by (simp add: word_le_nat_alt)
  have "(ucast (cdf ! i) :: 32 word) \<le> 2 ^ 15" using cu uc by (simp add: word_le_nat_alt)
  from unat_sub [OF this] have uf: "unat f = 32768 - unat (cdf ! i)" by (simp add: f_def uc)
  then have f1: "unat f \<le> 32768" by simp
  have a: "unat (drop_bit 6 f) \<le> 512"
    using f1 by (simp add: drop_bit_eq_div unat_div)
  from r have "unat rng < 65536" by (simp add: word_less_nat_alt)
  then have b: "unat (drop_bit 8 rng) \<le> 255"
    by (simp add: drop_bit_eq_div unat_div)
  from b a have ab: "unat (drop_bit 8 rng) * unat (drop_bit 6 f) \<le> 255 * 512" by (rule mult_le_mono)
  then have "unat (drop_bit 8 rng) * unat (drop_bit 6 f) < 2 ^ LENGTH(32)" by simp
  then have um: "unat (drop_bit 8 rng * drop_bit 6 f) = unat (drop_bit 8 rng) * unat (drop_bit 6 f)"
    by (simp only: unat_mult_lem)
  define p where "p = drop_bit 8 rng * drop_bit 6 f"
  from ab um have "unat p \<le> 130560" by (simp add: p_def)
  then have "unat (drop_bit 1 p) \<le> 65280" by (simp add: drop_bit_eq_div unat_div)
  then have d: "unat (drop_bit 1 (drop_bit 8 rng * drop_bit 6 f)) \<le> 65280" by (simp only: p_def)
  from n have k: "n - i - 1 \<le> 63" by simp
  then have "unat (word_of_nat (n - i - 1) :: 32 word) = n - i - 1" by (simp add: unat_of_nat)
  moreover have "unat (4 * word_of_nat (n - i - 1) :: 32 word) = (4 * unat (word_of_nat (n - i - 1) :: 32 word)) mod 2 ^ 32"
    by (simp add: unat_word_ariths)
  ultimately have e: "unat (4 * word_of_nat (n - i - 1) :: 32 word) \<le> 252" using k by simp
  have "unat (drop_bit 1 (drop_bit 8 rng * drop_bit 6 f) + 4 * word_of_nat (n - i - 1))
      \<le> unat (drop_bit 1 (drop_bit 8 rng * drop_bit 6 f)) + unat (4 * word_of_nat (n - i - 1) :: 32 word)"
    by (simp add: unat_word_ariths)
  with d e have "unat (drop_bit 1 (drop_bit 8 rng * drop_bit 6 f) + 4 * word_of_nat (n - i - 1)) \<le> 65532"
    by linarith
  then have "unat (cdf_threshold rng cdf n i) \<le> 65532"
    unfolding cdf_threshold_def Let_def f_def .
  then show ?thesis by (simp add: word_less_nat_alt)
qed

lemma read_symbol_succeeds:
  assumes inv: "sd_inv sd" and n: "n \<le> 64" and c: "\<forall>i<n. cdf ! i \<le> 2 ^ 15"
    and n1: "1 < n" and last: "cdf ! (n - 1) = 2 ^ 15"
  shows "\<exists>s sd' cdf'. av1_symbol_read_symbol sd cdf n = (Inr s, sd', cdf')"
proof -
  from inv have vr: "symbol_value sd < symbol_range sd" and r16: "symbol_range sd < 2 ^ 16"
    and acc0: "int (unat (bitpos (br sd))) + max 0 (symbol_max_bits sd) \<le> 8 * int (length (data (br sd)))"
    and sz0: "length (data (br sd)) < 2 ^ 60"
    by (simp_all add: sd_inv_def)
  from n1 have "0 < n" by simp
  from cdf_walk_total [OF this last, of "symbol_range sd" "symbol_value sd" "symbol_range sd"]
  obtain s prev cur where
    w: "cdf_walk (symbol_range sd) (symbol_value sd) cdf n 0 (symbol_range sd) = Some (s, prev, cur)" and
    sn: "s < n" and cv: "cur \<le> symbol_value sd" and
    pv: "0 < s \<longrightarrow> prev = cdf_threshold (symbol_range sd) cdf n (s - 1) \<and> symbol_value sd < prev" and
    p0: "s = 0 \<longrightarrow> prev = symbol_range sd"
    by blast
  have vp: "symbol_value sd < prev"
  proof (cases "s = 0")
    case True
    with p0 vr show ?thesis by simp
  next
    case False
    with pv show ?thesis by blast
  qed
  have p16: "prev < 2 ^ 16"
  proof (cases "s = 0")
    case True
    with p0 r16 show ?thesis by simp
  next
    case False
    with sn have "s - 1 < n" by simp
    with c have "cdf ! (s - 1) \<le> 2 ^ 15" by blast
    from cdf_threshold_small [OF r16 n this] pv False show ?thesis by blast
  qed
  let ?sd1 = "sd\<lparr>symbol_range := prev - cur, symbol_value := symbol_value sd - cur\<rparr>"
  from cv vp have cp: "cur \<le> prev" by simp
  have up: "unat (prev - cur) = unat prev - unat cur" using cp by (rule unat_sub)
  from cv vp have lt: "unat cur < unat prev" by (simp add: word_le_nat_alt word_less_nat_alt)
  from p16 have "unat prev < 65536" by (simp add: word_less_nat_alt)
  with up lt have "unat (prev - cur) \<noteq> 0" "unat (prev - cur) < 65536" by simp_all
  then have nz: "symbol_range ?sd1 \<noteq> 0" and l16: "symbol_range ?sd1 < 2 ^ 16"
    by (simp_all add: word_less_nat_alt unat_eq_0)
  from acc0 have acc: "int (unat (bitpos (br ?sd1))) + max 0 (symbol_max_bits ?sd1) \<le> 8 * int (length (data (br ?sd1)))"
    by simp
  from sz0 have sz: "8 * length (data (br ?sd1)) < 2 ^ 64" by simp
  from symbol_renorm_eq [OF nz l16 acc sz] obtain sd' where
    rn: "symbol_renorm ?sd1 = (Inr (), sd')" by blast
  show ?thesis using n1 last w rn by (simp add: av1_symbol_read_symbol_def)
qed

lemma read_symbol_failure_unchanged:
  assumes inv: "sd_inv sd" and n: "n \<le> 64" and c: "\<forall>i<n. cdf ! i \<le> 2 ^ 15"
    and f: "av1_symbol_read_symbol sd cdf n = (Inl e, sd', cdf')"
  shows "sd' = sd \<and> cdf' = cdf"
proof (cases "1 < n \<and> cdf ! (n - 1) = 2 ^ 15")
  case True
  with read_symbol_succeeds [OF inv n c] f show ?thesis by auto
next
  case False
  with f show ?thesis by (auto simp: av1_symbol_read_symbol_def split: if_splits)
qed

lemma read_bool_succeeds:
  assumes inv: "sd_inv sd"
  shows "\<exists>b sd'. av1_symbol_read_bool sd = (Inr b, sd')"
proof -
  let ?sd0 = "sd\<lparr>disable_cdf_update := True\<rparr>"
  from inv have i0: "sd_inv ?sd0" by (simp add: sd_inv_def)
  have "[2 ^ 14, 2 ^ 15, 0 :: 16 word] ! i \<le> 2 ^ 15" if "i < 2" for i
  proof -
    from that have "i = 0 \<or> i = 1" by auto
    then show ?thesis by auto
  qed
  then have c: "\<forall>i<2. [2 ^ 14, 2 ^ 15, 0 :: 16 word] ! i \<le> 2 ^ 15" by blast
  have "\<exists>s sd' cdf'. av1_symbol_read_symbol ?sd0 [2 ^ 14, 2 ^ 15, 0] 2 = (Inr s, sd', cdf')"
    by (rule read_symbol_succeeds [OF i0 _ c]) simp_all
  then show ?thesis by (auto simp: av1_symbol_read_bool_def)
qed

lemma read_literal_loop_succeeds:
  assumes "sd_inv sd"
  shows "\<exists>y sd'. read_literal_loop sd k x = (Inr y, sd')"
  using assms
proof (induction k arbitrary: sd x)
  case 0
  show ?case by simp
next
  case (Suc k)
  from read_bool_succeeds [OF Suc.prems] obtain b sd1 where
    rb: "av1_symbol_read_bool sd = (Inr b, sd1)" by blast
  from read_bool_step(1) [OF rb Suc.prems] have "sd_inv sd1" .
  from Suc.IH [OF this] rb show ?case by simp
qed

lemma read_literal_failure_unchanged:
  assumes "sd_inv sd" and "av1_symbol_read_literal sd k = (Inl e, sd')"
  shows "sd' = sd \<and> 32 < k"
  using assms read_literal_loop_succeeds [OF assms(1), of k 0]
  by (auto simp: av1_symbol_read_literal_def split: if_splits)

subsection \<open>What a failure leaves unchanged\<close>

lemma br_read_bits_loop_data: "data (snd (br_read_bits_loop b k v)) = data b"
proof (induction k arbitrary: b v)
  case 0
  show ?case by simp
next
  case (Suc k)
  show ?case
  proof (cases "br_read_bit b")
    case None
    then show ?thesis by simp
  next
    case (Some p)
    obtain x b' where p: "p = (x, b')" by (cases p)
    with Some have "data b' = data b" by (auto simp: br_read_bit_def split: if_splits)
    with Some p Suc.IH [of b' "push_bit 1 v OR x"] show ?thesis by simp
  qed
qed

lemma br_read_bits_data: "data (snd (br_read_bits b n)) = data b"
  by (simp add: br_read_bits_def br_read_bits_loop_data)

lemma symbol_renorm_frame:
  assumes "symbol_renorm sd1 = (r, sd')"
  shows "data (br sd') = data (br sd1)" and "disable_cdf_update sd' = disable_cdf_update sd1"
    and "symbol_max_bits sd' \<le> symbol_max_bits sd1"
    and "r = Inl e \<Longrightarrow> symbol_max_bits sd' = symbol_max_bits sd1"
proof -
  define bits where "bits = 15 - floor_log2_u32 (symbol_range sd1)"
  define sd2 where "sd2 = sd1\<lparr>symbol_range := push_bit (unat bits) (symbol_range sd1)\<rparr>"
  define numBits where "numBits = (if (if symbol_max_bits sd2 < 0 then 0 else symbol_max_bits sd2) < int (unat bits)
      then nat (if symbol_max_bits sd2 < 0 then 0 else symbol_max_bits sd2) else unat bits)"
  define rd where "rd = (if numBits \<noteq> 0 then br_read_bits (br sd2) numBits else (Some 0, br sd2))"
  have rdd: "data (snd rd) = data (br sd1)"
    by (simp add: rd_def br_read_bits_data sd2_def)
  have ex: "symbol_renorm sd1 =
     (if symbol_range sd1 = 0 then (Inl ''invalid symbol_range=0'', sd1)
      else if 15 < bits then (Inl ''invalid renorm bits'', sd1)
      else case rd of
             (None, b') \<Rightarrow> (Inl ''truncated symbol renorm bits'', sd2\<lparr>br := b'\<rparr>)
           | (Some newData, b') \<Rightarrow>
               (Inr (),
                sd2\<lparr>br := b',
                    symbol_value := push_bit (unat bits - numBits) newData XOR
                      (push_bit (unat bits) (symbol_value sd2 + 1) - 1),
                    symbol_max_bits := symbol_max_bits sd2 - int (unat bits)\<rparr>))"
    unfolding symbol_renorm_def Let_def bits_def [symmetric] sd2_def [symmetric]
      numBits_def [symmetric] rd_def [symmetric] ..
  obtain o1 b' where rdp: "rd = (o1, b')" by (cases rd)
  with rdd have bd: "data b' = data (br sd1)" by simp
  from assms show "data (br sd') = data (br sd1)"
    unfolding ex rdp using bd by (auto simp: sd2_def split: if_splits option.splits)
  from assms show "disable_cdf_update sd' = disable_cdf_update sd1"
    unfolding ex rdp by (auto simp: sd2_def split: if_splits option.splits)
  from assms show "symbol_max_bits sd' \<le> symbol_max_bits sd1"
    unfolding ex rdp by (auto simp: sd2_def split: if_splits option.splits)
  from assms show "r = Inl e \<Longrightarrow> symbol_max_bits sd' = symbol_max_bits sd1"
    unfolding ex rdp by (auto simp: sd2_def split: if_splits option.splits)
qed

lemma read_symbol_frame:
  assumes "av1_symbol_read_symbol sd cdf n = (r, sd', cdf')"
  shows "data (br sd') = data (br sd)" and "disable_cdf_update sd' = disable_cdf_update sd"
    and "symbol_max_bits sd' \<le> symbol_max_bits sd"
    and "r = Inl e \<Longrightarrow> symbol_max_bits sd' = symbol_max_bits sd \<and> cdf' = cdf"
proof -
  have "data (br sd') = data (br sd) \<and> disable_cdf_update sd' = disable_cdf_update sd \<and>
      symbol_max_bits sd' \<le> symbol_max_bits sd \<and>
      (r = Inl e \<longrightarrow> symbol_max_bits sd' = symbol_max_bits sd \<and> cdf' = cdf)"
  proof (cases "n \<le> 1 \<or> cdf ! (n - 1) \<noteq> 2 ^ 15")
    case True
    with assms show ?thesis by (auto simp: av1_symbol_read_symbol_def split: if_splits)
  next
    case False
    show ?thesis
    proof (cases "cdf_walk (symbol_range sd) (symbol_value sd) cdf n 0 (symbol_range sd)")
      case None
      with False assms show ?thesis by (auto simp: av1_symbol_read_symbol_def)
    next
      case (Some t)
      obtain symbol prev cur where t: "t = (symbol, prev, cur)" by (cases t)
      let ?sd1 = "sd\<lparr>symbol_range := prev - cur, symbol_value := symbol_value sd - cur\<rparr>"
      obtain rr sdr where rn: "symbol_renorm ?sd1 = (rr, sdr)" by (cases "symbol_renorm ?sd1")
      note f = symbol_renorm_frame [OF rn]
      from assms False Some t rn have e: "sd' = sdr" "(\<exists>x. r = Inl x) = (\<exists>x. rr = Inl x)"
        "r = Inl e \<longrightarrow> rr = Inl e \<and> cdf' = cdf"
        by (cases rr; auto simp: av1_symbol_read_symbol_def)+
      from f(1,2,3) f(4) [of e] e show ?thesis by auto
    qed
  qed
  then show "data (br sd') = data (br sd)" and "disable_cdf_update sd' = disable_cdf_update sd"
    and "symbol_max_bits sd' \<le> symbol_max_bits sd"
    and "r = Inl e \<Longrightarrow> symbol_max_bits sd' = symbol_max_bits sd \<and> cdf' = cdf"
    by blast+
qed

lemma read_bool_frame:
  assumes "av1_symbol_read_bool sd = (r, sd')"
  shows "data (br sd') = data (br sd)" and "disable_cdf_update sd' = disable_cdf_update sd"
    and "symbol_max_bits sd' \<le> symbol_max_bits sd"
    and "r = Inl e \<Longrightarrow> symbol_max_bits sd' = symbol_max_bits sd"
proof -
  let ?sd0 = "sd\<lparr>disable_cdf_update := True\<rparr>"
  obtain rr sdr cdfr where rs: "av1_symbol_read_symbol ?sd0 [2 ^ 14, 2 ^ 15, 0] 2 = (rr, sdr, cdfr)"
    by (cases "av1_symbol_read_symbol ?sd0 [2 ^ 14, 2 ^ 15, 0] 2")
  with assms have e: "r = rr" "sd' = sdr\<lparr>disable_cdf_update := disable_cdf_update sd\<rparr>"
    by (simp_all add: av1_symbol_read_bool_def Let_def)
  note f = read_symbol_frame [OF rs]
  from f(1) e show "data (br sd') = data (br sd)" by simp
  from e show "disable_cdf_update sd' = disable_cdf_update sd" by simp
  from f(3) e show "symbol_max_bits sd' \<le> symbol_max_bits sd" by simp
  from f(4) [of e] e show "r = Inl e \<Longrightarrow> symbol_max_bits sd' = symbol_max_bits sd" by simp
qed

lemma read_literal_loop_frame:
  assumes "read_literal_loop sd k x = (r, sd')"
  shows "data (br sd') = data (br sd) \<and> disable_cdf_update sd' = disable_cdf_update sd \<and>
         symbol_max_bits sd' \<le> symbol_max_bits sd"
  using assms
proof (induction k arbitrary: sd x)
  case 0
  then show ?case by simp
next
  case (Suc k)
  obtain rb sdb where rb: "av1_symbol_read_bool sd = (rb, sdb)" by (cases "av1_symbol_read_bool sd")
  note f = read_bool_frame(1,2,3) [OF rb]
  show ?case
  proof (cases rb)
    case (Inl e)
    with Suc.prems rb have "sd' = sdb" by simp
    with f show ?thesis by simp
  next
    case (Inr b)
    with Suc.prems rb have "read_literal_loop sdb k (push_bit 1 x OR (b AND 1)) = (r, sd')" by simp
    from Suc.IH [OF this] f show ?thesis by simp
  qed
qed

lemma read_literal_frame:
  assumes "av1_symbol_read_literal sd k = (r, sd')"
  shows "data (br sd') = data (br sd) \<and> disable_cdf_update sd' = disable_cdf_update sd \<and>
         symbol_max_bits sd' \<le> symbol_max_bits sd"
proof (cases "32 < k")
  case True
  with assms show ?thesis by (simp add: av1_symbol_read_literal_def)
next
  case False
  with assms have "read_literal_loop sd k 0 = (r, sd')" by (simp add: av1_symbol_read_literal_def)
  then show ?thesis by (rule read_literal_loop_frame)
qed

text \<open>
  Claim C8 (as amended): for every decoder state and every array passed as CDF, a failing
  \<open>read_symbol\<close> leaves the array as it was and changes nothing in the decoder but the bit
  position, \<open>symbol_range\<close> and \<open>symbol_value\<close> (and nothing at all when it fails on its
  argument checks); a failing \<open>read_bool\<close> changes nothing but these three fields; a failing
  \<open>read_literal\<close> changes nothing but these three fields and \<open>symbol_max_bits\<close>, which it can
  only lower (and it changes nothing at all when the width exceeds 32 or the state satisfies
  the invariant of the reachable states); a failing \<open>exit\<close> changes nothing but the bit
  position.
\<close>

theorem failure_leaves_state:
  "(av1_symbol_read_symbol sd cdf n = (Inl e1, sd1, cdf1) \<longrightarrow>
      cdf1 = cdf \<and> unchanged_but_interval sd sd1 \<and>
      (n \<le> 1 \<or> cdf ! (n - 1) \<noteq> 2 ^ 15 \<longrightarrow> sd1 = sd)) \<and>
   (av1_symbol_read_bool sdb = (Inl e2, sd2) \<longrightarrow> unchanged_but_interval sdb sd2) \<and>
   (av1_symbol_read_literal sdl k = (Inl e3, sd3) \<longrightarrow>
      data (br sd3) = data (br sdl) \<and> disable_cdf_update sd3 = disable_cdf_update sdl \<and>
      symbol_max_bits sd3 \<le> symbol_max_bits sdl \<and> (32 < k \<or> sd_inv sdl \<longrightarrow> sd3 = sdl)) \<and>
   (av1_symbol_exit sdx = (Inl e4, sd4) \<longrightarrow> unchanged_but_bitpos sdx sd4)"
proof -
  have a: "cdf1 = cdf \<and> unchanged_but_interval sd sd1 \<and>
      (n \<le> 1 \<or> cdf ! (n - 1) \<noteq> 2 ^ 15 \<longrightarrow> sd1 = sd)"
    if r: "av1_symbol_read_symbol sd cdf n = (Inl e1, sd1, cdf1)"
  proof -
    note f = read_symbol_frame [OF r]
    from r have "n \<le> 1 \<or> cdf ! (n - 1) \<noteq> 2 ^ 15 \<longrightarrow> sd1 = sd"
      by (auto simp: av1_symbol_read_symbol_def split: if_splits)
    with f(1,2) f(4) [of e1] show ?thesis by (simp add: unchanged_but_interval_def)
  qed
  have b: "unchanged_but_interval sdb sd2" if r: "av1_symbol_read_bool sdb = (Inl e2, sd2)"
    using read_bool_frame(1,2) [OF r] read_bool_frame(4) [OF r, of e2]
    by (simp add: unchanged_but_interval_def)
  have c: "data (br sd3) = data (br sdl) \<and> disable_cdf_update sd3 = disable_cdf_update sdl \<and>
      symbol_max_bits sd3 \<le> symbol_max_bits sdl \<and> (32 < k \<or> sd_inv sdl \<longrightarrow> sd3 = sdl)"
    if r: "av1_symbol_read_literal sdl k = (Inl e3, sd3)"
  proof -
    from r have "32 < k \<longrightarrow> sd3 = sdl" by (auto simp: av1_symbol_read_literal_def)
    moreover have "sd_inv sdl \<longrightarrow> sd3 = sdl" using read_literal_failure_unchanged [OF _ r] by blast
    ultimately show ?thesis using read_literal_frame [OF r] by blast
  qed
  have d: "unchanged_but_bitpos sdx sd4" if r: "av1_symbol_exit sdx = (Inl e4, sd4)"
    using r by (rule exit_unchanged_but_bitpos)
  from a b c d show ?thesis by blast
qed

text \<open>
  The theorem at four failures: \<open>read_symbol\<close> failing in the renormalisation on the array
  \<open>{65535, 32768, 0}\<close> in the state left by the initialisation on two zero bytes,
  \<open>read_bool\<close> running out of data in a state made up for the purpose, \<open>read_literal\<close> refusing
  a width of 33, and the exit failing on the missing trailing bit after advancing the bit
  position from 15 to 16.
\<close>

theorem failure_leaves_state_witness:
  "av1_symbol_read_symbol kat_sd0 [65535, 32768, 0] 2 =
     (Inl ''invalid renorm bits'', kat_sd0\<lparr>symbol_range := 2147450884\<rparr>, [65535, 32768, 0]) \<and>
   unchanged_but_interval kat_sd0 (kat_sd0\<lparr>symbol_range := 2147450884\<rparr>) \<and>
   av1_symbol_read_bool kat_sd_starved =
     (Inl ''truncated symbol renorm bits'', kat_sd_starved\<lparr>symbol_range := 65520, symbol_value := 3612\<rparr>) \<and>
   unchanged_but_interval kat_sd_starved (kat_sd_starved\<lparr>symbol_range := 65520, symbol_value := 3612\<rparr>) \<and>
   sd_inv kat_sd0 \<and>
   av1_symbol_read_literal kat_sd0 33 = (Inl ''unsupported literal width'', kat_sd0) \<and>
   av1_symbol_exit kat_sd0 = (Inl ''trailing bit not 1'', kat_sd0\<lparr>br := \<lparr>data = [0, 0], bitpos = 16\<rparr>\<rparr>) \<and>
   unchanged_but_bitpos kat_sd0 (kat_sd0\<lparr>br := \<lparr>data = [0, 0], bitpos = 16\<rparr>\<rparr>)"
proof -
  have inv: "sd_inv kat_sd0" by (simp add: sd_inv_def kat_sd0_def)
  have r: "av1_symbol_read_symbol kat_sd0 [65535, 32768, 0] 2 =
     (Inl ''invalid renorm bits'', kat_sd0\<lparr>symbol_range := 2147450884\<rparr>, [65535, 32768, 0])"
    by code_simp
  have b: "av1_symbol_read_bool kat_sd_starved =
     (Inl ''truncated symbol renorm bits'', kat_sd_starved\<lparr>symbol_range := 65520, symbol_value := 3612\<rparr>)"
    by code_simp
  have l: "av1_symbol_read_literal kat_sd0 33 = (Inl ''unsupported literal width'', kat_sd0)"
    by code_simp
  have x: "av1_symbol_exit kat_sd0 =
     (Inl ''trailing bit not 1'', kat_sd0\<lparr>br := \<lparr>data = [0, 0], bitpos = 16\<rparr>\<rparr>)" by code_simp
  from failure_leaves_state [of kat_sd0 "[65535, 32768, 0]" 2 "''invalid renorm bits''"
      "kat_sd0\<lparr>symbol_range := 2147450884\<rparr>" "[65535, 32768, 0]"
      kat_sd_starved "''truncated symbol renorm bits''"
      "kat_sd_starved\<lparr>symbol_range := 65520, symbol_value := 3612\<rparr>"
      kat_sd0 33 "''unsupported literal width''" kat_sd0
      kat_sd0 "''trailing bit not 1''" "kat_sd0\<lparr>br := \<lparr>data = [0, 0], bitpos = 16\<rparr>\<rparr>"] r b l x
  have "unchanged_but_interval kat_sd0 (kat_sd0\<lparr>symbol_range := 2147450884\<rparr>)"
    and "unchanged_but_interval kat_sd_starved (kat_sd_starved\<lparr>symbol_range := 65520, symbol_value := 3612\<rparr>)"
    and "unchanged_but_bitpos kat_sd0 (kat_sd0\<lparr>br := \<lparr>data = [0, 0], bitpos = 16\<rparr>\<rparr>)"
    by blast+
  with inv r b l x show ?thesis by blast
qed

text \<open>
  Claim C8 as stated fails. In the state left by the initialisation on two zero bytes,
  \<open>read_symbol\<close> with the array \<open>{65535, 32768, 32768, 0}\<close> (which passes the check of the entry
  \<open>n - 1\<close>) walks to symbol 1, stores the new range \<open>2147450884\<close> and the new value \<open>32763\<close> in
  the decoder and only then fails on the renormalisation shift: the failure has changed
  \<open>symbol_range\<close> and \<open>symbol_value\<close>. And in a state whose \<open>symbol_max_bits\<close> promises more
  bits than the buffer holds, \<open>read_literal\<close> of two bits reads the first bit, which lowers
  \<open>symbol_max_bits\<close> from 20 to 19, and fails on the second.
\<close>

theorem failure_mutates_counterexample:
  "reachable [0, 0] kat_sd0 \<and>
   av1_symbol_read_symbol kat_sd0 [65535, 32768, 32768, 0] 3 =
     (Inl ''invalid renorm bits'', kat_sd0\<lparr>symbol_range := 2147450884, symbol_value := 32763\<rparr>,
      [65535, 32768, 32768, 0]) \<and>
   symbol_range (kat_sd0\<lparr>symbol_range := 2147450884, symbol_value := 32763\<rparr>) \<noteq> symbol_range kat_sd0 \<and>
   symbol_value (kat_sd0\<lparr>symbol_range := 2147450884, symbol_value := 32763\<rparr>) \<noteq> symbol_value kat_sd0 \<and>
   \<not> unchanged_but_bitpos kat_sd0 (kat_sd0\<lparr>symbol_range := 2147450884, symbol_value := 32763\<rparr>) \<and>
   av1_symbol_read_literal kat_sd_short 2 =
     (Inl ''truncated symbol renorm bits'',
      \<lparr>br = \<lparr>data = [0], bitpos = 8\<rparr>, symbol_value = 1, symbol_range = 32776,
         symbol_max_bits = 19, disable_cdf_update = False\<rparr>) \<and>
   symbol_max_bits kat_sd_short = 20"
proof -
  have "reachable [0, 0] kat_sd0" using init_kat by (rule r_init)
  moreover have "av1_symbol_read_symbol kat_sd0 [65535, 32768, 32768, 0] 3 =
     (Inl ''invalid renorm bits'', kat_sd0\<lparr>symbol_range := 2147450884, symbol_value := 32763\<rparr>,
      [65535, 32768, 32768, 0])"
    by code_simp
  moreover have "symbol_range (kat_sd0\<lparr>symbol_range := 2147450884, symbol_value := 32763\<rparr>) \<noteq> symbol_range kat_sd0"
    "symbol_value (kat_sd0\<lparr>symbol_range := 2147450884, symbol_value := 32763\<rparr>) \<noteq> symbol_value kat_sd0"
    "\<not> unchanged_but_bitpos kat_sd0 (kat_sd0\<lparr>symbol_range := 2147450884, symbol_value := 32763\<rparr>)"
    by (simp_all add: unchanged_but_bitpos_def kat_sd0_def)
  moreover have "av1_symbol_read_literal kat_sd_short 2 =
     (Inl ''truncated symbol renorm bits'',
      \<lparr>br = \<lparr>data = [0], bitpos = 8\<rparr>, symbol_value = 1, symbol_range = 32776,
         symbol_max_bits = 19, disable_cdf_update = False\<rparr>)"
    by code_simp
  moreover have "symbol_max_bits kat_sd_short = 20" by (simp add: kat_sd_short_def)
  ultimately show ?thesis by blast
qed

subsection \<open>The scan orders\<close>

lemma unat_Suc_word32:
  fixes i n :: "32 word"
  assumes "i < n"
  shows "unat (i + 1) = Suc (unat i)"
proof -
  from assms have lt: "unat i < unat n" by (simp add: word_less_nat_alt)
  have b: "unat n < 2 ^ LENGTH(32)" by (rule unsigned_less)
  from lt b have "unat i + 1 < 2 ^ LENGTH(32)" by linarith
  then have "unat i + unat (1 :: 32 word) < 2 ^ LENGTH(32)" by simp
  then have "unat (i + 1) = unat i + unat (1 :: 32 word)" by (simp only: unat_add_lem)
  then show ?thesis by simp
qed

lemma upto_loop_eq:
  "upto_loop i n body = concat (map (\<lambda>j. body (word_of_nat j)) [unat i..<unat n])"
proof (induction m \<equiv> "unat n - unat i" arbitrary: i)
  case 0
  then have a: "\<not> i < n" by (simp add: word_less_nat_alt)
  from 0 have b: "[unat i..<unat n] = []" by simp
  show ?case unfolding b using a by (subst upto_loop.simps) simp
next
  case (Suc m)
  then have lt: "i < n" by (simp add: word_less_nat_alt)
  then have lt': "unat i < unat n" by (simp add: word_less_nat_alt)
  note u = unat_Suc_word32 [OF lt]
  from Suc.hyps(2) have "m = unat n - unat (i + 1)" by (simp add: u)
  from Suc.hyps(1) [OF this]
  have ih: "upto_loop (i + 1) n body = concat (map (\<lambda>j. body (word_of_nat j)) [Suc (unat i)..<unat n])"
    by (simp only: u)
  have "[unat i..<unat n] = unat i # [Suc (unat i)..<unat n]" using lt' by (rule upt_conv_Cons)
  then show ?case using lt ih by (subst upto_loop.simps) simp
qed

lemma down_loop_eq:
  assumes "x_min \<le> x" and "unat x < 2 ^ 32 - 1"
  shows "down_loop x x_min f = map (\<lambda>j. f (word_of_nat j)) (rev [unat x_min..<Suc (unat x)])"
  using assms
proof (induction m \<equiv> "unat x - unat x_min" arbitrary: x)
  case 0
  from 0(2) have le: "unat x_min \<le> unat x" by (simp add: word_le_nat_alt)
  with 0(1) have e: "unat x = unat x_min" by simp
  then have xe: "x = x_min" by (simp only: word_unat_eq_iff)
  from 0(3) have "unat x + unat (1 :: 32 word) < 2 ^ LENGTH(32)" by simp
  then have "unat (x + 1) = unat x + unat (1 :: 32 word)" by (simp only: unat_add_lem)
  then have "x_min < x + 1" by (simp add: word_less_nat_alt e)
  then show ?case using xe by (subst down_loop.simps) simp
next
  case (Suc m)
  from Suc.hyps(2) have lt: "unat x_min < unat x" by simp
  then have ne: "x \<noteq> x_min" by auto
  from Suc.prems(2) have "unat x + unat (1 :: 32 word) < 2 ^ LENGTH(32)" by simp
  then have "unat (x + 1) = unat x + unat (1 :: 32 word)" by (simp only: unat_add_lem)
  then have c: "x_min < x + 1" using lt by (simp add: word_less_nat_alt)
  from lt have "1 \<le> x" by (simp add: word_le_nat_alt)
  from unat_sub [OF this] have u: "unat (x - 1) = unat x - 1" by simp
  with lt have le1: "x_min \<le> x - 1" by (simp add: word_le_nat_alt)
  from u Suc.prems(2) have b1: "unat (x - 1) < 2 ^ 32 - 1" by simp
  from Suc.hyps(2) u have "m = unat (x - 1) - unat x_min" by simp
  from Suc.hyps(1) [OF this le1 b1] u lt
  have ih: "down_loop (x - 1) x_min f = map (\<lambda>j. f (word_of_nat j)) (rev [unat x_min..<unat x])"
    by simp
  have "[unat x_min..<Suc (unat x)] = [unat x_min..<unat x] @ [unat x]" using lt by simp
  then show ?case using c ne ih by (subst down_loop.simps) simp
qed

lemma scan_diagonals_eq:
  assumes "unat max_sum < 2 ^ 32 - 1" and "unat s \<le> Suc (unat max_sum)"
  shows "scan_diagonals width height max_sum s acc =
     Some (acc @ concat (map (\<lambda>j. scan_diagonal width height (word_of_nat j)) [unat s..<Suc (unat max_sum)]))"
  using assms(2)
proof (induction m \<equiv> "Suc (unat max_sum) - unat s" arbitrary: s acc)
  case 0
  then have e: "unat s = Suc (unat max_sum)" by simp
  then have "\<not> s \<le> max_sum" by (simp add: word_le_nat_alt)
  then show ?case using e by (subst scan_diagonals.simps) simp
next
  case (Suc m)
  then have le': "unat s \<le> unat max_sum" by simp
  then have le: "s \<le> max_sum" by (simp add: word_le_nat_alt)
  from le' assms(1) have "unat s + unat (1 :: 32 word) < 2 ^ LENGTH(32)" by simp
  then have "unat (s + 1) = unat s + unat (1 :: 32 word)" by (simp only: unat_add_lem)
  then have u: "unat (s + 1) = Suc (unat s)" by simp
  from Suc.hyps(2) have m: "m = Suc (unat max_sum) - unat (s + 1)" by (simp add: u)
  from le' have b: "unat (s + 1) \<le> Suc (unat max_sum)" by (simp add: u)
  note ih = Suc.hyps(1) [OF m b, of "acc @ scan_diagonal width height s", unfolded u]
  have "[unat s..<Suc (unat max_sum)] = unat s # [Suc (unat s)..<Suc (unat max_sum)]"
    using le' by (simp add: upt_conv_Cons)
  then show ?case using le ih by (subst scan_diagonals.simps) simp
qed

lemma cell_less:
  fixes r c w h :: nat
  assumes "r < h" and "c < w"
  shows "r * w + c < w * h"
proof -
  from assms(2) have "r * w + c < Suc r * w" by simp
  also from assms(1) have "Suc r * w \<le> h * w" by (intro mult_le_mono1) simp
  finally show ?thesis by (simp add: mult.commute)
qed

lemma unat_of_nat_small: "n < 2 ^ 32 \<Longrightarrow> unat (word_of_nat n :: 32 word) = n"
  by (simp add: unat_of_nat)

lemma unat_cell:
  assumes "r < h" and "c < w" and "w * h \<le> 1024"
  shows "unat (ucast ((word_of_nat r :: 32 word) * word_of_nat w + word_of_nat c) :: 16 word) = r * w + c"
proof -
  from cell_less [OF assms(1,2)] assms(3) have b: "r * w + c < 1024" by simp
  have e: "(word_of_nat r :: 32 word) * word_of_nat w + word_of_nat c = word_of_nat (r * w + c)" by simp
  from b have "r * w + c < 2 ^ 32" by simp
  then have u: "unat (word_of_nat (r * w + c) :: 32 word) = r * w + c" by (rule unat_of_nat_small)
  with b have "unat (word_of_nat (r * w + c) :: 32 word) < 2 ^ 16" by simp
  from unat_ucast_32_16 [OF this] u show ?thesis unfolding e by simp
qed

lemma dims_small:
  fixes w h :: nat
  assumes "0 < w" and "0 < h" and "w * h \<le> 1024"
  shows "w \<le> 1024" and "h \<le> 1024"
proof -
  from assms(2) have "1 \<le> h" by simp
  then have "w * 1 \<le> w * h" by (rule mult_le_mono2)
  then have "w \<le> w * h" by simp
  from this assms(3) show "w \<le> 1024" by (rule le_trans)
  from assms(1) have "1 \<le> w" by simp
  then have "1 * h \<le> w * h" by (rule mult_le_mono1)
  then have "h \<le> w * h" by simp
  from this assms(3) show "h \<le> 1024" by (rule le_trans)
qed

lemma build_scan_vert:
  assumes "0 < w" and "0 < h" and "w * h \<le> 1024"
  shows "\<exists>scan. build_scan AV1_TX_CLASS_VERT (word_of_nat w) (word_of_nat h) = Some scan \<and>
           map unat scan = col_major_order w h"
proof -
  note d = dims_small [OF assms]
  from d have uw: "unat (word_of_nat w :: 32 word) = w" and uh: "unat (word_of_nat h :: 32 word) = h"
    by (simp_all add: unat_of_nat_small)
  have inner: "map unat (upto_loop 0 (word_of_nat h)
        (\<lambda>row. [ucast (row * (word_of_nat w :: 32 word) + word_of_nat c) :: 16 word])) =
      map (\<lambda>r. raster w (r, c)) [0..<h]" if "c < w" for c
    using that assms(3) by (simp add: upto_loop_eq uh map_concat comp_def raster_def unat_cell [where h = h])
  have "map unat (upto_loop 0 (word_of_nat w) (\<lambda>col. upto_loop 0 (word_of_nat h)
           (\<lambda>row. [ucast (row * (word_of_nat w :: 32 word) + col) :: 16 word]))) =
        concat (map (\<lambda>c. map (\<lambda>r. raster w (r, c)) [0..<h]) [0..<w])"
    unfolding upto_loop_eq [of 0 "word_of_nat w"] uw map_concat map_map comp_def
    using inner by (intro arg_cong [where f = concat] map_cong) simp_all
  then show ?thesis by (simp add: build_scan_def col_major_order_def)
qed

lemma build_scan_horiz:
  assumes "0 < w" and "0 < h" and "w * h \<le> 1024"
  shows "\<exists>scan. build_scan AV1_TX_CLASS_HORIZ (word_of_nat w) (word_of_nat h) = Some scan \<and>
           map unat scan = row_major_order w h"
proof -
  note d = dims_small [OF assms]
  from d have uw: "unat (word_of_nat w :: 32 word) = w" and uh: "unat (word_of_nat h :: 32 word) = h"
    by (simp_all add: unat_of_nat_small)
  have inner: "map unat (upto_loop 0 (word_of_nat w)
        (\<lambda>col. [ucast ((word_of_nat r :: 32 word) * word_of_nat w + col) :: 16 word])) =
      map (\<lambda>c. raster w (r, c)) [0..<w]" if "r < h" for r
    using that assms(3) by (simp add: upto_loop_eq uw map_concat comp_def raster_def unat_cell [where h = h])
  have "map unat (upto_loop 0 (word_of_nat h) (\<lambda>row. upto_loop 0 (word_of_nat w)
           (\<lambda>col. [ucast (row * (word_of_nat w :: 32 word) + col) :: 16 word]))) =
        concat (map (\<lambda>r. map (\<lambda>c. raster w (r, c)) [0..<w]) [0..<h])"
    unfolding upto_loop_eq [of 0 "word_of_nat h"] uh map_concat map_map comp_def
    using inner by (intro arg_cong [where f = concat] map_cong) simp_all
  moreover have "AV1_TX_CLASS_HORIZ \<noteq> AV1_TX_CLASS_VERT"
    by (simp add: AV1_TX_CLASS_HORIZ_def AV1_TX_CLASS_VERT_def)
  ultimately show ?thesis by (simp add: build_scan_def row_major_order_def)
qed

lemma filter_interval:
  "filter (\<lambda>r. lo \<le> r \<and> r < hi) [0..<h] = [lo..<min hi h]"
proof (induction h)
  case 0
  show ?case by simp
next
  case (Suc h)
  show ?case
  proof (cases "lo \<le> h \<and> h < hi")
    case True
    then have "min hi h = h" "min hi (Suc h) = Suc h" by simp_all
    with True Suc show ?thesis by simp
  next
    case False
    then have "[lo..<min hi (Suc h)] = [lo..<min hi h]" by (auto simp: min_def)
    with False Suc show ?thesis by simp
  qed
qed

lemma diagonal_cells_interval:
  assumes "0 < w" and "0 < h"
  shows "diagonal_cells w h s = map (\<lambda>r. (r, s - r)) [s - (w - 1)..<Suc (min s (h - 1))]"
proof -
  have "(\<lambda>r. r \<le> s \<and> s - r < w) = (\<lambda>r. s - (w - 1) \<le> r \<and> r < Suc s)"
    using assms(1) by (intro ext) auto
  moreover have "min (Suc s) h = Suc (min s (h - 1))" using assms(2) by (auto simp: min_def)
  ultimately show ?thesis by (simp add: diagonal_cells_def filter_interval del: upt_Suc)
qed

lemma rev_interval:
  assumes "b \<le> a" and "a \<le> s"
  shows "rev [b..<Suc a] = map (\<lambda>r. s - r) [s - a..<Suc (s - b)]"
proof (rule nth_equalityI)
  show "length (rev [b..<Suc a]) = length (map (\<lambda>r. s - r) [s - a..<Suc (s - b)])"
    using assms by (simp del: upt_Suc)
next
  fix i assume "i < length (rev [b..<Suc a])"
  then have i: "i < Suc a - b" by (simp del: upt_Suc)
  then have "rev [b..<Suc a] ! i = a - i" using assms by (simp add: rev_nth del: upt_Suc)
  moreover have "map (\<lambda>r. s - r) [s - a..<Suc (s - b)] ! i = a - i"
    using i assms by (simp del: upt_Suc)
  ultimately show "rev [b..<Suc a] ! i = map (\<lambda>r. s - r) [s - a..<Suc (s - b)] ! i" by simp
qed

lemma word32_and_1_even:
  assumes "s < 2 ^ 32"
  shows "(word_of_nat s :: 32 word) AND 1 = 0 \<longleftrightarrow> even s"
proof -
  let ?S = "word_of_nat s :: 32 word"
  have a: "?S AND 1 = ?S mod 2" by (rule and_one_eq)
  have "unat (?S mod 2) = unat ?S mod unat (2 :: 32 word)" by (rule unat_mod)
  then have "unat (?S AND 1) = s mod 2" using assms by (simp only: a unat_of_nat_small) simp
  moreover have "?S AND 1 = 0 \<longleftrightarrow> unat (?S AND 1) = 0" by (simp only: unat_eq_0)
  ultimately show ?thesis by (simp only: even_iff_mod_2_eq_zero)
qed

lemma scan_diagonal_loops:
  assumes w: "0 < w" "w \<le> 1024" and h: "0 < h" "h \<le> 1024" and s: "s < w + h - 1"
  shows "scan_diagonal (word_of_nat w) (word_of_nat h) (word_of_nat s) =
     (if even s
      then down_loop (word_of_nat (min s (h - 1))) (word_of_nat (s - (w - 1)))
             (\<lambda>row. ucast (row * (word_of_nat w :: 32 word) + (word_of_nat s - row)))
      else down_loop (word_of_nat (min s (w - 1))) (word_of_nat (s - (h - 1)))
             (\<lambda>col. ucast ((word_of_nat s - col) * (word_of_nat w :: 32 word) + col)))"
proof -
  from w h s have s32: "s < 2 ^ 32" by simp
  have us: "unat (word_of_nat s :: 32 word) = s" using s32 by (rule unat_of_nat_small)
  have w1: "(word_of_nat w :: 32 word) - 1 = word_of_nat (w - 1)" using w by (simp add: of_nat_diff)
  have h1: "(word_of_nat h :: 32 word) - 1 = word_of_nat (h - 1)" using h by (simp add: of_nat_diff)
  from w have "w - 1 < 2 ^ 32" by simp
  then have uw1: "unat (word_of_nat (w - 1) :: 32 word) = w - 1" by (rule unat_of_nat_small)
  from h have "h - 1 < 2 ^ 32" by simp
  then have uh1: "unat (word_of_nat (h - 1) :: 32 word) = h - 1" by (rule unat_of_nat_small)
  have c1: "(word_of_nat s :: 32 word) < word_of_nat (h - 1) \<longleftrightarrow> s < h - 1"
    by (simp only: word_less_nat_alt us uh1)
  have c2: "(word_of_nat (w - 1) :: 32 word) < word_of_nat s \<longleftrightarrow> w - 1 < s"
    by (simp only: word_less_nat_alt us uw1)
  have c3: "(word_of_nat s :: 32 word) < word_of_nat (w - 1) \<longleftrightarrow> s < w - 1"
    by (simp only: word_less_nat_alt us uw1)
  have c4: "(word_of_nat (h - 1) :: 32 word) < word_of_nat s \<longleftrightarrow> h - 1 < s"
    by (simp only: word_less_nat_alt us uh1)
  have r: "(if s < h - 1 then (word_of_nat s :: 32 word) else word_of_nat (h - 1)) = word_of_nat (min s (h - 1))"
    by (simp add: min_def)
  have rm: "(if w - 1 < s then (word_of_nat s :: 32 word) - word_of_nat (w - 1) else 0) = word_of_nat (s - (w - 1))"
    by (simp add: of_nat_diff)
  have c: "(if s < w - 1 then (word_of_nat s :: 32 word) else word_of_nat (w - 1)) = word_of_nat (min s (w - 1))"
    by (simp add: min_def)
  have cm: "(if h - 1 < s then (word_of_nat s :: 32 word) - word_of_nat (h - 1) else 0) = word_of_nat (s - (h - 1))"
    by (simp add: of_nat_diff)
  show ?thesis
    unfolding scan_diagonal_def Let_def w1 h1 c1 c2 c3 c4 r rm c cm word32_and_1_even [OF s32] ..
qed

lemma scan_diagonal_eq:
  assumes w: "0 < w" and h: "0 < h" and wh: "w * h \<le> 1024" and s: "s < w + h - 1"
  shows "map unat (scan_diagonal (word_of_nat w) (word_of_nat h) (word_of_nat s)) =
     map (raster w) (if even s then rev (diagonal_cells w h s) else diagonal_cells w h s)"
proof -
  note d = dims_small [OF w h wh]
  let ?lo = "s - (w - 1)" and ?hi = "min s (h - 1)"
  let ?W = "word_of_nat w :: 32 word" and ?S = "word_of_nat s :: 32 word"
  have small: "unat (word_of_nat k :: 32 word) = k" if "k \<le> s" for k
    using that s d by (intro unat_of_nat_small) simp
  have lohi: "?lo \<le> ?hi" using s w h by (auto simp: min_def)
  have sub: "?S - word_of_nat k = word_of_nat (s - k)" if "k \<le> s" for k
    using that by (simp add: of_nat_diff)
  show ?thesis
  proof (cases "even s")
    case True
    have ulo: "unat (word_of_nat ?lo :: 32 word) = ?lo" by (rule small) simp
    have uhi: "unat (word_of_nat ?hi :: 32 word) = ?hi" by (rule small) simp
    have le: "(word_of_nat ?lo :: 32 word) \<le> word_of_nat ?hi"
      using lohi by (simp only: word_le_nat_alt ulo uhi)
    have "?hi < 2 ^ 32 - 1" using s d by simp
    then have b: "unat (word_of_nat ?hi :: 32 word) < 2 ^ 32 - 1" by (simp only: uhi)
    have cell: "unat (ucast ((word_of_nat j :: 32 word) * ?W + (?S - word_of_nat j)) :: 16 word) = raster w (j, s - j)"
      if "j \<in> set [?lo..<Suc ?hi]" for j
    proof -
      from that have j: "?lo \<le> j" "j \<le> s" "j \<le> h - 1" by auto
      from j(3) h have jh: "j < h" by simp
      from j(1) w have cw: "s - j < w" by linarith
      from unat_cell [OF jh cw wh] show ?thesis by (simp add: sub [OF j(2)] raster_def)
    qed
    have "map unat (scan_diagonal ?W (word_of_nat h) ?S) =
        map (\<lambda>j. unat (ucast ((word_of_nat j :: 32 word) * ?W + (?S - word_of_nat j)) :: 16 word))
          (rev [?lo..<Suc ?hi])"
    proof -
      have "scan_diagonal ?W (word_of_nat h) ?S = down_loop (word_of_nat ?hi) (word_of_nat ?lo)
             (\<lambda>row. ucast (row * ?W + (?S - row)))"
        using True by (simp only: scan_diagonal_loops [OF w d(1) h d(2) s] if_True)
      also note down_loop_eq [OF le b]
      finally show ?thesis by (simp only: ulo uhi map_map comp_def)
    qed
    also have "\<dots> = map (\<lambda>j. raster w (j, s - j)) (rev [?lo..<Suc ?hi])"
      using cell by (intro map_cong refl) (simp del: upt_Suc)
    also have "\<dots> = map (raster w) (rev (diagonal_cells w h s))"
      by (simp add: diagonal_cells_interval [OF w h] rev_map comp_def del: upt_Suc)
    finally show ?thesis using True by simp
  next
    case False
    let ?clo = "s - (h - 1)" and ?chi = "min s (w - 1)"
    have clohi: "?clo \<le> ?chi" using s w h by (auto simp: min_def)
    have ulo: "unat (word_of_nat ?clo :: 32 word) = ?clo" by (rule small) simp
    have uhi: "unat (word_of_nat ?chi :: 32 word) = ?chi" by (rule small) simp
    have le: "(word_of_nat ?clo :: 32 word) \<le> word_of_nat ?chi"
      using clohi by (simp only: word_le_nat_alt ulo uhi)
    have "?chi < 2 ^ 32 - 1" using s d by simp
    then have b: "unat (word_of_nat ?chi :: 32 word) < 2 ^ 32 - 1" by (simp only: uhi)
    have cell: "unat (ucast ((?S - word_of_nat j) * ?W + (word_of_nat j :: 32 word)) :: 16 word) = raster w (s - j, s - (s - j))"
      if "j \<in> set (rev [?clo..<Suc ?chi])" for j
    proof -
      from that have j: "?clo \<le> j" "j \<le> s" "j \<le> w - 1" by auto
      from j(3) w have jw: "j < w" by simp
      from j(1) h have rh: "s - j < h" by linarith
      from j(2) have e: "s - (s - j) = j" by simp
      from unat_cell [OF rh jw wh] show ?thesis unfolding e by (simp add: sub [OF j(2)] raster_def)
    qed
    have e1: "s - ?chi = ?lo" by (auto simp: min_def)
    have e2: "s - ?clo = ?hi" by (auto simp: min_def)
    have chis: "?chi \<le> s" by simp
    have "map unat (scan_diagonal ?W (word_of_nat h) ?S) =
        map (\<lambda>j. unat (ucast ((?S - word_of_nat j) * ?W + (word_of_nat j :: 32 word)) :: 16 word))
          (rev [?clo..<Suc ?chi])"
    proof -
      have "scan_diagonal ?W (word_of_nat h) ?S = down_loop (word_of_nat ?chi) (word_of_nat ?clo)
             (\<lambda>col. ucast ((?S - col) * ?W + col))"
        using False by (simp only: scan_diagonal_loops [OF w d(1) h d(2) s] if_False)
      also note down_loop_eq [OF le b]
      finally show ?thesis by (simp only: ulo uhi map_map comp_def)
    qed
    also have "\<dots> = map (\<lambda>j. raster w (s - j, s - (s - j))) (rev [?clo..<Suc ?chi])"
      using cell by (intro map_cong refl)
    also have "\<dots> = map (\<lambda>r. raster w (r, s - r)) [?lo..<Suc ?hi]"
      unfolding rev_interval [OF clohi chis] e1 e2 by (auto simp add: comp_def simp del: upt_Suc)
    also have "\<dots> = map (raster w) (diagonal_cells w h s)"
      by (simp add: diagonal_cells_interval [OF w h] comp_def del: upt_Suc)
    finally show ?thesis using False by simp
  qed
qed

lemma raster_inj:
  assumes "c < w" and "c' < w" and "raster w (r, c) = raster w (r', c')"
  shows "r = r' \<and> c = c'"
proof -
  from assms(3) have e: "r * w + c = r' * w + c'" by (simp add: raster_def)
  from assms(1) have "(r * w + c) div w = r" "(r * w + c) mod w = c" by simp_all
  moreover from assms(2) have "(r' * w + c') div w = r'" "(r' * w + c') mod w = c'" by simp_all
  ultimately show ?thesis using e by simp
qed

lemma raster_image:
  assumes "0 < w"
  shows "raster w ` {(r, c). r < h \<and> c < w} = {0..<w * h}"
proof (rule set_eqI)
  fix p
  show "p \<in> raster w ` {(r, c). r < h \<and> c < w} \<longleftrightarrow> p \<in> {0..<w * h}"
  proof
    assume "p \<in> raster w ` {(r, c). r < h \<and> c < w}"
    then obtain r c where "r < h" "c < w" "p = r * w + c" by (auto simp: raster_def)
    with cell_less [of r h c w] show "p \<in> {0..<w * h}" by simp
  next
    assume "p \<in> {0..<w * h}"
    then have p: "p < w * h" by simp
    then have "p div w < h" by (simp add: less_mult_imp_div_less mult.commute)
    moreover have "p mod w < w" using assms by simp
    moreover have "p = raster w (p div w, p mod w)" by (simp add: raster_def)
    ultimately show "p \<in> raster w ` {(r, c). r < h \<and> c < w}" by blast
  qed
qed

lemma cells_permutation:
  assumes w: "0 < w" and d: "distinct cells" and s: "set cells = {(r, c). r < h \<and> c < w}"
  shows "mset (map (raster w) cells) = mset [0..<w * h]"
proof -
  have "inj_on (raster w) (set cells)"
    unfolding s by (rule inj_onI) (auto dest: raster_inj)
  with d have d': "distinct (map (raster w) cells)" by (simp add: distinct_map)
  have s': "set (map (raster w) cells) = set [0..<w * h]"
    using raster_image [OF w, of h] by (simp add: s)
  have "distinct [0..<w * h]" by simp
  from set_eq_iff_mset_eq_distinct [OF d' this] s' show ?thesis by blast
qed

lemma distinct_concat_map_upt:
  assumes "\<And>i. i < n \<Longrightarrow> distinct (D i)"
    and "\<And>i j. i < j \<Longrightarrow> j < n \<Longrightarrow> set (D i) \<inter> set (D j) = {}"
  shows "distinct (concat (map D [0..<n]))"
  using assms
proof (induction n)
  case 0
  show ?case by simp
next
  case (Suc n)
  have "distinct (concat (map D [0..<n]))"
    by (rule Suc.IH) (use Suc.prems in auto)
  moreover have "distinct (D n)" by (rule Suc.prems(1)) simp
  moreover have "set (concat (map D [0..<n])) \<inter> set (D n) = {}"
  proof -
    have "set (D i) \<inter> set (D n) = {}" if "i < n" for i
      using that by (intro Suc.prems(2)) simp_all
    then have "\<forall>i<n. \<forall>x\<in>set (D i). x \<notin> set (D n)" by blast
    then show ?thesis by auto
  qed
  ultimately show ?case by simp
qed

lemma diagonal_cells_set:
  "set (diagonal_cells w h s) = {(r, c). r < h \<and> c < w \<and> r + c = s}"
  by (auto simp: diagonal_cells_def)

lemma diagonal_cells_distinct: "distinct (diagonal_cells w h s)"
  by (simp add: diagonal_cells_def distinct_map inj_on_def)

lemma zigzag_order_permutation:
  assumes "0 < w"
  shows "mset (zigzag_order w h) = mset [0..<w * h]"
proof -
  define D where "D s = (if even s then rev (diagonal_cells w h s) else diagonal_cells w h s)" for s
  have Ds: "set (D s) = {(r, c). r < h \<and> c < w \<and> r + c = s}" for s
    by (simp add: D_def diagonal_cells_set)
  have Dd: "distinct (D s)" for s by (simp add: D_def diagonal_cells_distinct)
  have e: "zigzag_order w h = map (raster w) (concat (map D [0..<w + h - 1]))"
    by (simp add: zigzag_order_def map_concat comp_def D_def if_distrib [of "map (raster w)"])
  have d: "distinct (concat (map D [0..<w + h - 1]))"
    by (rule distinct_concat_map_upt) (auto simp: Dd Ds)
  have s: "set (concat (map D [0..<w + h - 1])) = {(r, c). r < h \<and> c < w}"
    by (auto simp: Ds)
  show ?thesis unfolding e using assms d s by (rule cells_permutation)
qed

lemma col_major_order_permutation:
  assumes "0 < w"
  shows "mset (col_major_order w h) = mset [0..<w * h]"
proof -
  define D where "D c = map (\<lambda>r. (r, c)) [0..<h]" for c :: nat
  have e: "col_major_order w h = map (raster w) (concat (map D [0..<w]))"
    by (simp add: col_major_order_def map_concat comp_def D_def)
  have d: "distinct (concat (map D [0..<w]))"
    by (rule distinct_concat_map_upt) (auto simp: D_def distinct_map inj_on_def)
  have s: "set (concat (map D [0..<w])) = {(r, c). r < h \<and> c < w}"
    by (auto simp: D_def)
  show ?thesis unfolding e using assms d s by (rule cells_permutation)
qed

lemma row_major_order_permutation:
  assumes "0 < w"
  shows "mset (row_major_order w h) = mset [0..<w * h]"
proof -
  define D where "D r = map (\<lambda>c. (r, c)) [0..<w]" for r :: nat
  have e: "row_major_order w h = map (raster w) (concat (map D [0..<h]))"
    by (simp add: row_major_order_def map_concat comp_def D_def)
  have d: "distinct (concat (map D [0..<h]))"
    by (rule distinct_concat_map_upt) (auto simp: D_def distinct_map inj_on_def)
  have s: "set (concat (map D [0..<h])) = {(r, c). r < h \<and> c < w}"
    by (auto simp: D_def)
  show ?thesis unfolding e using assms d s by (rule cells_permutation)
qed

lemma row_major_order_identity: "row_major_order w h = [0..<w * h]"
proof (induction h)
  case 0
  show ?case by (simp add: row_major_order_def)
next
  case (Suc h)
  have "map (\<lambda>c. c + h * w) [0..<w] = [h * w..<w + h * w]" by (rule map_add_upt)
  then have "map (\<lambda>c. raster w (h, c)) [0..<w] = [h * w..<h * w + w]"
    by (simp add: raster_def add.commute)
  moreover have "[0..<w * Suc h] = [0..<w * h] @ [h * w..<h * w + w]"
    using upt_add_eq_append [of 0 "w * h" w] by (simp add: mult.commute add.commute)
  ultimately show ?case using Suc by (simp add: row_major_order_def)
qed

lemma build_scan_2d:
  assumes w: "0 < w" and h: "0 < h" and wh: "w * h \<le> 1024"
  shows "\<exists>scan. build_scan AV1_TX_CLASS_2D (word_of_nat w) (word_of_nat h) = Some scan \<and>
           map unat scan = zigzag_order w h"
proof -
  note d = dims_small [OF w h wh]
  let ?W = "word_of_nat w :: 32 word" and ?H = "word_of_nat h :: 32 word"
  have sum: "?W + ?H = word_of_nat (w + h)" by simp
  from d have "w + h < 2 ^ 32" by simp
  then have us: "unat (word_of_nat (w + h) :: 32 word) = w + h" by (rule unat_of_nat_small)
  with w have nz: "?W + ?H \<noteq> 0" unfolding sum by (auto simp: unat_eq_0 [symmetric])
  from w h have "?W + ?H - 2 = word_of_nat (w + h - 2)" by (simp add: of_nat_diff)
  moreover from d have "w + h - 2 < 2 ^ 32" by simp
  then have "unat (word_of_nat (w + h - 2) :: 32 word) = w + h - 2" by (rule unat_of_nat_small)
  ultimately have um: "unat (?W + ?H - 2) = w + h - 2" by simp
  from d have b: "unat (?W + ?H - 2) < 2 ^ 32 - 1" unfolding um by simp
  have z: "unat (0 :: 32 word) \<le> Suc (unat (?W + ?H - 2))" by simp
  from w h have m: "Suc (w + h - 2) = w + h - 1" by simp
  have cls: "AV1_TX_CLASS_2D \<noteq> AV1_TX_CLASS_VERT" "AV1_TX_CLASS_2D \<noteq> AV1_TX_CLASS_HORIZ"
    by (simp_all add: AV1_TX_CLASS_2D_def AV1_TX_CLASS_VERT_def AV1_TX_CLASS_HORIZ_def)
  have bs: "build_scan AV1_TX_CLASS_2D ?W ?H =
      Some (concat (map (\<lambda>j. scan_diagonal ?W ?H (word_of_nat j)) [0..<w + h - 1]))"
  proof -
    have "build_scan AV1_TX_CLASS_2D ?W ?H = scan_diagonals ?W ?H (?W + ?H - 2) 0 []"
      using cls nz by (simp add: build_scan_def Let_def)
    also have "\<dots> = Some ([] @ concat (map (\<lambda>j. scan_diagonal ?W ?H (word_of_nat j))
          [unat (0 :: 32 word)..<Suc (unat (?W + ?H - 2))]))"
      by (rule scan_diagonals_eq [OF b z])
    finally show ?thesis by (simp only: um m unat_0 append_Nil)
  qed
  have "map unat (concat (map (\<lambda>j. scan_diagonal ?W ?H (word_of_nat j)) [0..<w + h - 1])) =
      concat (map (\<lambda>j. map unat (scan_diagonal ?W ?H (word_of_nat j))) [0..<w + h - 1])"
    by (simp add: map_concat comp_def)
  also have "\<dots> = concat (map (\<lambda>s. map (raster w)
        (if even s then rev (diagonal_cells w h s) else diagonal_cells w h s)) [0..<w + h - 1])"
    by (intro arg_cong [where f = concat] map_cong refl scan_diagonal_eq [OF w h wh]) simp
  finally show ?thesis unfolding bs by (simp add: zigzag_order_def)
qed

lemma build_scan_kat_8x4:
  "build_scan AV1_TX_CLASS_2D 8 4 =
     Some [0, 1, 8, 16, 9, 2, 3, 10, 17, 24, 25, 18, 11, 4, 5, 12, 19, 26, 27, 20, 13, 6, 7, 14, 21, 28,
           29, 22, 15, 23, 30, 31]"
  by code_simp

text \<open>
  Claim C9: for every width and height that are positive with \<open>width * height \<le> 1024\<close> (the
  capacity of the array \<open>scan[1024]\<close>; the transform blocks of the decoder are 4 to 32 wide and
  high), \<open>build_scan\<close> returns, for the class 2D, the diagonal zigzag order, for the class HORIZ
  the row-major order and for the class VERT the column-major order of the raster positions
  \<open>row * width + col\<close>, and each of the three is a permutation of \<open>[0, width * height)\<close>.
\<close>

theorem build_scan_orders:
  assumes "0 < w" and "0 < h" and "w * h \<le> 1024"
  shows "map_option (map unat) (build_scan AV1_TX_CLASS_2D (word_of_nat w) (word_of_nat h)) =
           Some (zigzag_order w h) \<and>
         map_option (map unat) (build_scan AV1_TX_CLASS_HORIZ (word_of_nat w) (word_of_nat h)) =
           Some (row_major_order w h) \<and>
         map_option (map unat) (build_scan AV1_TX_CLASS_VERT (word_of_nat w) (word_of_nat h)) =
           Some (col_major_order w h) \<and>
         mset (zigzag_order w h) = mset [0..<w * h] \<and>
         mset (row_major_order w h) = mset [0..<w * h] \<and>
         mset (col_major_order w h) = mset [0..<w * h] \<and>
         row_major_order w h = [0..<w * h]"
proof -
  from build_scan_2d [OF assms] build_scan_horiz [OF assms] build_scan_vert [OF assms]
  have "map_option (map unat) (build_scan AV1_TX_CLASS_2D (word_of_nat w) (word_of_nat h)) =
           Some (zigzag_order w h)"
    and "map_option (map unat) (build_scan AV1_TX_CLASS_HORIZ (word_of_nat w) (word_of_nat h)) =
           Some (row_major_order w h)"
    and "map_option (map unat) (build_scan AV1_TX_CLASS_VERT (word_of_nat w) (word_of_nat h)) =
           Some (col_major_order w h)"
    by auto
  with zigzag_order_permutation [OF assms(1), of h] row_major_order_permutation [OF assms(1), of h]
    col_major_order_permutation [OF assms(1), of h] row_major_order_identity [of w h]
  show ?thesis by blast
qed

text \<open>
  The theorem at the 4 by 4 transform: the 2D scan is
  \<open>0, 1, 4, 8, 5, 2, 3, 6, 9, 12, 13, 10, 7, 11, 14, 15\<close>.
\<close>

theorem build_scan_orders_witness:
  "(0 :: nat) < 4 \<and> (4 :: nat) * 4 \<le> 1024 \<and>
   build_scan AV1_TX_CLASS_2D 4 4 = Some [0, 1, 4, 8, 5, 2, 3, 6, 9, 12, 13, 10, 7, 11, 14, 15] \<and>
   zigzag_order 4 4 = [0, 1, 4, 8, 5, 2, 3, 6, 9, 12, 13, 10, 7, 11, 14, 15] \<and>
   build_scan AV1_TX_CLASS_HORIZ 4 4 = Some [0, 1, 2, 3, 4, 5, 6, 7, 8, 9, 10, 11, 12, 13, 14, 15] \<and>
   row_major_order 4 4 = [0, 1, 2, 3, 4, 5, 6, 7, 8, 9, 10, 11, 12, 13, 14, 15] \<and>
   build_scan AV1_TX_CLASS_VERT 4 4 = Some [0, 4, 8, 12, 1, 5, 9, 13, 2, 6, 10, 14, 3, 7, 11, 15] \<and>
   col_major_order 4 4 = [0, 4, 8, 12, 1, 5, 9, 13, 2, 6, 10, 14, 3, 7, 11, 15] \<and>
   mset (zigzag_order 4 4) = mset [0..<4 * 4] \<and>
   mset (col_major_order 4 4) = mset [0..<4 * 4]"
proof -
  have a: "(0 :: nat) < 4" and b: "(4 :: nat) * 4 \<le> 1024" by simp_all
  have z: "build_scan AV1_TX_CLASS_2D 4 4 = Some [0, 1, 4, 8, 5, 2, 3, 6, 9, 12, 13, 10, 7, 11, 14, 15]"
    by code_simp
  have r: "build_scan AV1_TX_CLASS_HORIZ 4 4 = Some [0, 1, 2, 3, 4, 5, 6, 7, 8, 9, 10, 11, 12, 13, 14, 15]"
    by code_simp
  have c: "build_scan AV1_TX_CLASS_VERT 4 4 = Some [0, 4, 8, 12, 1, 5, 9, 13, 2, 6, 10, 14, 3, 7, 11, 15]"
    by code_simp
  note t = build_scan_orders [OF a a b]
  from t z have z': "zigzag_order 4 4 = [0, 1, 4, 8, 5, 2, 3, 6, 9, 12, 13, 10, 7, 11, 14, 15]" by simp
  from t r have r': "row_major_order 4 4 = [0, 1, 2, 3, 4, 5, 6, 7, 8, 9, 10, 11, 12, 13, 14, 15]" by simp
  from t c have c': "col_major_order 4 4 = [0, 4, 8, 12, 1, 5, 9, 13, 2, 6, 10, 14, 3, 7, 11, 15]" by simp
  from t have "mset (zigzag_order 4 4) = mset [0..<4 * 4]" "mset (col_major_order 4 4) = mset [0..<4 * 4]"
    by blast+
  with a b z r c z' r' c' show ?thesis by blast
qed

subsection \<open>The derivation of eob\<close>

lemma read_symbol_result_less:
  assumes "av1_symbol_read_symbol sd cdf n = (Inr s, sd', cdf')" and "n < 2 ^ 32"
  shows "unat s < n"
proof -
  from assms(1) obtain symbol prev cur where
    w: "cdf_walk (symbol_range sd) (symbol_value sd) cdf n 0 (symbol_range sd) = Some (symbol, prev, cur)" and
    s: "s = word_of_nat symbol"
    by (rule read_symbol_Inr)
  from cdf_walk_symbol_less [OF w] have sl: "symbol < n" .
  with assms(2) have "symbol < 2 ^ 32" by simp
  with s have "unat s = symbol" by (simp add: unat_of_nat)
  with sl show ?thesis by simp
qed

lemma read_bool_bit:
  assumes "av1_symbol_read_bool sd = (Inr b, sd')"
  shows "b = 0 \<or> b = 1"
proof -
  from assms obtain sd2 cdf' where
    r: "av1_symbol_read_symbol (sd\<lparr>disable_cdf_update := True\<rparr>) [2 ^ 14, 2 ^ 15, 0] 2 = (Inr b, sd2, cdf')"
    by (auto simp: av1_symbol_read_bool_def Let_def split: prod.splits)
  from read_symbol_result_less [OF r] have "unat b < 2" by simp
  then have "unat b = 0 \<or> unat b = 1" by linarith
  then show ?thesis by (simp add: word_unat_eq_iff)
qed

lemma low_bit_add:
  fixes x b :: "32 word"
  shows "push_bit 1 x + (b AND 1) = push_bit 1 x OR (b AND 1)"
proof -
  have "2 * x + (b AND 1) = 2 * x OR (b AND 1)"
    by (rule disjunctive_add) (auto simp: bit_double_iff bit_and_iff bit_1_iff)
  moreover have "push_bit 1 x = 2 * x" by (simp add: push_bit_eq_mult)
  ultimately show ?thesis by (simp only:)
qed

lemma shift_in_low_bit:
  fixes x b :: "32 word"
  shows "push_bit k (push_bit 1 x OR (b AND 1)) = push_bit (Suc k) x + push_bit k (b AND 1)"
proof -
  have "push_bit 1 x + (b AND 1) = push_bit 1 x OR (b AND 1)" by (rule low_bit_add)
  then have "push_bit k (push_bit 1 x OR (b AND 1)) = push_bit k (push_bit 1 x + (b AND 1))"
    by simp
  also have "\<dots> = push_bit k (push_bit 1 x) + push_bit k (b AND 1)" by (rule push_bit_add)
  also have "push_bit k (push_bit 1 x) = push_bit (Suc k) x" by (simp add: push_bit_eq_mult)
  finally show ?thesis .
qed

lemma read_literal_loop_shift:
  "read_literal_loop sd k x =
     (case read_literal_loop sd k 0 of
        (Inl e, s) \<Rightarrow> (Inl e, s)
      | (Inr v, s) \<Rightarrow> (Inr (push_bit k x + v), s))"
proof (induction k arbitrary: sd x)
  case 0
  show ?case by simp
next
  case (Suc k)
  obtain r sd1 where rb: "av1_symbol_read_bool sd = (r, sd1)" by (cases "av1_symbol_read_bool sd")
  show ?case
  proof (cases r)
    case (Inl e)
    with rb show ?thesis by simp
  next
    case (Inr b)
    have l: "read_literal_loop sd (Suc k) x = read_literal_loop sd1 k (push_bit 1 x OR (b AND 1))"
      using rb Inr by simp
    have z: "read_literal_loop sd (Suc k) 0 = read_literal_loop sd1 k (b AND 1)"
      using rb Inr by simp
    obtain r0 s0 where r0: "read_literal_loop sd1 k 0 = (r0, s0)" by (cases "read_literal_loop sd1 k 0")
    show ?thesis
      unfolding l z Suc.IH [of sd1 "push_bit 1 x OR (b AND 1)"] Suc.IH [of sd1 "b AND 1"] r0
      by (cases r0) (simp_all only: sum.case prod.case shift_in_low_bit add.assoc)
  qed
qed

lemma read_literal_loop_bound:
  assumes "read_literal_loop sd k x = (Inr y, sd')" and "unat x < 2 ^ j" and "j + k \<le> 32"
  shows "unat y < 2 ^ (j + k)"
  using assms
proof (induction k arbitrary: sd x j)
  case 0
  then show ?case by simp
next
  case (Suc k)
  obtain r sd1 where rb: "av1_symbol_read_bool sd = (r, sd1)" by (cases "av1_symbol_read_bool sd")
  with Suc.prems(1) obtain b where r: "r = Inr b" by (cases r) auto
  from read_bool_bit rb r have b: "b = 0 \<or> b = 1" by blast
  let ?x = "push_bit 1 x OR (b AND 1)"
  from Suc.prems(1) rb r have l: "read_literal_loop sd1 k ?x = (Inr y, sd')" by simp
  have "push_bit 1 x + (b AND 1) = ?x" by (rule low_bit_add)
  then have "unat ?x = unat (push_bit 1 x + (b AND 1))" by simp
  also have "\<dots> \<le> unat (push_bit 1 x) + unat (b AND 1)" by (simp add: unat_word_ariths)
  also have "unat (push_bit 1 x) \<le> 2 * unat x" by (simp add: push_bit_eq_mult unat_word_ariths)
  also have "unat (b AND 1) \<le> 1" using b by auto
  finally have "unat ?x \<le> 2 * unat x + 1" by simp
  also from Suc.prems(2) have "2 * unat x + 1 < 2 * 2 ^ j" by simp
  finally have x: "unat ?x < 2 ^ Suc j" by simp
  from Suc.prems(3) have "Suc j + k \<le> 32" by simp
  from Suc.IH [OF l x this] show ?case by simp
qed

lemma eob_bits_loop_eq:
  assumes "i \<le> m"
  shows "eob_bits_loop sd m i e =
     (case read_literal_loop sd (unat m - unat i) 0 of
        (Inl er, s) \<Rightarrow> (Inl er, s)
      | (Inr v, s) \<Rightarrow> (Inr (e + v), s))"
  using assms
proof (induction k \<equiv> "unat m - unat i" arbitrary: sd i e)
  case 0
  from 0(2) have "unat i \<le> unat m" by (simp add: word_le_nat_alt)
  with 0(1) have "\<not> i < m" by (simp add: word_less_nat_alt)
  then show ?case unfolding 0(1) [symmetric] by (subst eob_bits_loop.simps) simp
next
  case (Suc k)
  from Suc.hyps(2) have lt': "unat i < unat m" by simp
  then have lt: "i < m" by (simp add: word_less_nat_alt)
  note u = unat_Suc_word32 [OF lt]
  from lt' have "1 \<le> m" by (simp add: word_le_nat_alt)
  from unat_sub [OF this] have um1: "unat (m - 1) = unat m - 1" by simp
  with lt' have "i \<le> m - 1" by (simp add: word_le_nat_alt)
  from unat_sub [OF this] um1 Suc.hyps(2) have us: "unat (m - 1 - i) = k" by simp
  from lt' have le1: "i + 1 \<le> m" by (simp add: word_le_nat_alt u)
  from Suc.hyps(2) have k: "k = unat m - unat (i + 1)" by (simp add: u)
  obtain r sd1 where rb: "av1_symbol_read_bool sd = (r, sd1)" by (cases "av1_symbol_read_bool sd")
  show ?case
  proof (cases r)
    case (Inl er)
    have "eob_bits_loop sd m i e = (Inl er, sd1)"
      using lt rb Inl by (subst eob_bits_loop.simps) simp
    moreover have "read_literal_loop sd (Suc k) 0 = (Inl er, sd1)" using rb Inl by simp
    ultimately show ?thesis unfolding Suc.hyps(2) [symmetric] by simp
  next
    case (Inr b)
    from read_bool_bit rb Inr have b: "b = 0 \<or> b = 1" by blast
    let ?e = "if b \<noteq> 0 then e + push_bit k 1 else e"
    have l: "eob_bits_loop sd m i e = eob_bits_loop sd1 m (i + 1) ?e"
      using lt rb Inr by (subst eob_bits_loop.simps) (simp add: Let_def us)
    note ih = Suc.hyps(1) [OF k le1, of sd1 ?e, folded k]
    have z: "read_literal_loop sd (Suc k) 0 = read_literal_loop sd1 k (b AND 1)"
      using rb Inr by simp
    obtain r0 s0 where r0: "read_literal_loop sd1 k 0 = (r0, s0)" by (cases "read_literal_loop sd1 k 0")
    show ?thesis
      unfolding Suc.hyps(2) [symmetric] l ih z read_literal_loop_shift [of sd1 k "b AND 1"] r0
      using b by (cases r0) (auto simp: add.assoc)
  qed
qed

lemma read_eob_pt_less:
  assumes "read_eob_pt sd coeff_cdfs ptype tx_size tx_type = (Inr s, sd1, cdfs1)"
  shows "unat s < 11"
proof -
  have *: "unat s < 11"
    if "(case av1_symbol_read_symbol sd0 cdf n of (r, sd', cdf') \<Rightarrow> (r, sd', g cdf')) = (Inr s, sd1, cdfs1)"
      and "n \<le> 11"
    for sd0 cdf n and g :: "16 word list \<Rightarrow> Av1TileCoeffCdfs"
  proof -
    from that(1) obtain cdf' where r: "av1_symbol_read_symbol sd0 cdf n = (Inr s, sd1, cdf')"
      by (cases "av1_symbol_read_symbol sd0 cdf n") auto
    from that(2) have "n < 2 ^ 32" by simp
    from read_symbol_result_less [OF r this] that(2) show ?thesis by simp
  qed
  define m :: "32 word" where "m = (if 5 < (ucast (kTxWidthLog2 ! unat tx_size) :: 32 word) then 5
        else ucast (kTxWidthLog2 ! unat tx_size)) +
      (if 5 < (ucast (kTxHeightLog2 ! unat tx_size) :: 32 word) then 5
        else ucast (kTxHeightLog2 ! unat tx_size)) - 4"
  define ec :: nat where "ec = (if get_tx_class_from_tx_type tx_type = AV1_TX_CLASS_2D then 0 else 1)"
  note unf = read_eob_pt_def [of sd coeff_cdfs ptype tx_size tx_type, unfolded Let_def,
      folded m_def ec_def]
  consider "m = 0" | "m = 1" | "m = 2" | "m = 3" | "m = 4" | "m = 5"
    | "m \<noteq> 0 \<and> m \<noteq> 1 \<and> m \<noteq> 2 \<and> m \<noteq> 3 \<and> m \<noteq> 4 \<and> m \<noteq> 5" by blast
  then show ?thesis
  proof cases
    case 1
    with assms [unfolded unf] show ?thesis by (intro * [where n = 5]) simp_all
  next
    case 2
    with assms [unfolded unf] show ?thesis by (intro * [where n = 6]) simp_all
  next
    case 3
    with assms [unfolded unf] show ?thesis by (intro * [where n = 7]) simp_all
  next
    case 4
    with assms [unfolded unf] show ?thesis by (intro * [where n = 8]) simp_all
  next
    case 5
    with assms [unfolded unf] show ?thesis by (intro * [where n = 9]) simp_all
  next
    case 6
    with assms [unfolded unf] show ?thesis by (intro * [where n = 10]) simp_all
  next
    case 7
    with assms [unfolded unf] show ?thesis by (intro * [where n = 11]) simp_all
  qed
qed

lemma tx_size_cases:
  assumes "tx_size < AV1_TX_SIZES_ALL"
  shows "tx_size \<in> set (map word_of_nat [0..<19])"
proof -
  from assms have "unat tx_size < 19" by (simp add: AV1_TX_SIZES_ALL_def word_less_nat_alt)
  then have "unat tx_size \<in> set [0..<19]" by simp
  then have "word_of_nat (unat tx_size) \<in> (word_of_nat ` set [0..<19] :: 32 word set)" by (rule imageI)
  then show ?thesis by simp
qed

lemma seg_eob_table:
  "list_all (\<lambda>t. (if t = AV1_TX_16X64 \<or> t = AV1_TX_64X16 then 512
        else let txw = push_bit (unat (ucast (kTxWidthLog2 ! unat t) :: 32 word)) (1 :: 32 word);
                 txh = push_bit (unat (ucast (kTxHeightLog2 ! unat t) :: 32 word)) (1 :: 32 word);
                 wh = txw * txh
             in if wh < 1024 then wh else 1024) = word_of_nat (seg_eob (unat t)) \<and>
        seg_eob (unat t) \<le> 1024)
     (map word_of_nat [0..<19])"
  by code_simp

lemma check_seg_eob_eq:
  assumes tx: "tx_size < AV1_TX_SIZES_ALL" and n: "n < 2 ^ 32"
  shows "check_seg_eob tx_size (word_of_nat n) s c = eob_checked (unat tx_size) n s c"
proof -
  from seg_eob_table tx_size_cases [OF tx]
  have seg: "(if tx_size = AV1_TX_16X64 \<or> tx_size = AV1_TX_64X16 then 512
        else let txw = push_bit (unat (ucast (kTxWidthLog2 ! unat tx_size) :: 32 word)) (1 :: 32 word);
                 txh = push_bit (unat (ucast (kTxHeightLog2 ! unat tx_size) :: 32 word)) (1 :: 32 word);
                 wh = txw * txh
             in if wh < 1024 then wh else 1024) = word_of_nat (seg_eob (unat tx_size))"
    and sb: "seg_eob (unat tx_size) \<le> 1024"
    unfolding list_all_iff by blast+
  from sb have "seg_eob (unat tx_size) < 2 ^ 32" by simp
  then have us: "unat (word_of_nat (seg_eob (unat tx_size)) :: 32 word) = seg_eob (unat tx_size)"
    by (simp add: unat_of_nat)
  from n have un: "unat (word_of_nat n :: 32 word) = n" by (simp add: unat_of_nat)
  have z: "(word_of_nat n :: 32 word) = 0 \<longleftrightarrow> n = 0"
    using un by (auto simp: unat_eq_0 [symmetric] simp del: unat_eq_0)
  have l: "(word_of_nat (seg_eob (unat tx_size)) :: 32 word) < word_of_nat n \<longleftrightarrow> seg_eob (unat tx_size) < n"
    by (simp only: word_less_nat_alt us un)
  show ?thesis
    unfolding check_seg_eob_def Let_def seg [unfolded Let_def] z l eob_checked_def
    by auto
qed

lemma read_eob_extra_none:
  assumes "p < 3"
  shows "read_eob_extra sd1 cdfs1 ptype txSzCtx (word_of_nat p) eob0 = (Inr eob0, sd1, cdfs1)"
proof -
  from assms have "p < 2 ^ 32" by simp
  then have u: "unat (word_of_nat p :: 32 word) = p" by (simp add: unat_of_nat)
  have "\<not> (3 :: 32 word) \<le> word_of_nat p" using assms by (simp add: word_le_nat_alt u)
  then show ?thesis by (simp add: read_eob_extra_def)
qed

lemma read_eob_extra_some:
  assumes p3: "3 \<le> p" and p11: "p \<le> 11"
  shows "read_eob_extra sd1 cdfs1 ptype txSzCtx (word_of_nat p) eob0 =
     (case av1_symbol_read_symbol sd1 (eob_extra cdfs1 ! unat txSzCtx ! ptype ! (p - 3)) 2 of
        (r, sd2, cdf') \<Rightarrow>
          let cdfs2 = cdfs1\<lparr>eob_extra := list_update3 (eob_extra cdfs1) (unat txSzCtx) ptype (p - 3) cdf'\<rparr>
          in case r of
               Inl e \<Rightarrow> (Inl e, sd2, cdfs2)
             | Inr eob_extra_sym \<Rightarrow>
                 (case av1_symbol_read_literal sd2 (p - 3) of
                    (Inl e, sd3) \<Rightarrow> (Inl e, sd3, cdfs2)
                  | (Inr bits, sd3) \<Rightarrow>
                      (Inr (eob0 + (if eob_extra_sym = 1 then 2 ^ (p - 3) else 0) + bits), sd3, cdfs2)))"
proof -
  let ?P = "word_of_nat p :: 32 word"
  from p11 have "p < 2 ^ 32" by simp
  then have u: "unat ?P = p" by (simp add: unat_of_nat)
  have c3: "(3 :: 32 word) \<le> ?P" using p3 by (simp add: word_le_nat_alt u)
  have c2: "(2 :: 32 word) < ?P" using p3 by (simp add: word_less_nat_alt u)
  from unat_sub [OF c3] u have u3: "unat (?P - 3) = p - 3" by simp
  from c2 have "(2 :: 32 word) \<le> ?P" by simp
  from unat_sub [OF this] u have u2: "unat (?P - 2) = p - 2" by simp
  have e3: "?P - 3 = word_of_nat (p - 3)" using p3 by (simp add: of_nat_diff)
  have "sint (word_of_nat (p - 3) :: 32 word) = signed_take_bit (LENGTH(32) - Suc 0) (int (p - 3))"
    using signed_of_nat [where ?'a = int and ?'b = 32, of "p - 3"] by simp
  also have "\<dots> = int (p - 3)"
    using p11 by (intro signed_take_bit_int_eq_self) simp_all
  finally have s3: "sint (?P - 3) = int (p - 3)" by (simp only: e3)
  have c9: "\<not> AV1_EOB_COEF_CONTEXTS \<le> ?P - 3"
    using p11 by (simp add: AV1_EOB_COEF_CONTEXTS_def word_le_nat_alt u3)
  have one: "(1 :: 32 word) \<le> ?P - 2" using p3 by (simp add: word_le_nat_alt u2)
  have k: "unat (?P - 2) - unat (1 :: 32 word) = p - 3" using u2 by simp
  have lit: "av1_symbol_read_literal sd2 (p - 3) = read_literal_loop sd2 (p - 3) 0" for sd2
    using p11 by (simp add: av1_symbol_read_literal_def)
  obtain r sd2 cdf' where rd: "av1_symbol_read_symbol sd1 (eob_extra cdfs1 ! unat txSzCtx ! ptype ! (p - 3)) 2 = (r, sd2, cdf')"
    by (cases "av1_symbol_read_symbol sd1 (eob_extra cdfs1 ! unat txSzCtx ! ptype ! (p - 3)) 2")
  show ?thesis
  proof (cases r)
    case (Inl e)
    have "read_eob_extra sd1 cdfs1 ptype txSzCtx ?P eob0 =
        (Inl e, sd2, cdfs1\<lparr>eob_extra := list_update3 (eob_extra cdfs1) (unat txSzCtx) ptype (p - 3) cdf'\<rparr>)"
      unfolding read_eob_extra_def Let_def u3 s3 using c3 c2 c9
      by (simp add: rd Inl)
    then show ?thesis unfolding rd Inl by (simp add: Let_def)
  next
    case (Inr x)
    with rd have "unat x < 2" using read_symbol_result_less [of sd1 _ 2 x sd2 cdf'] by simp
    then have "unat x = 0 \<or> unat x = 1" by linarith
    then have x: "x = 0 \<or> x = 1" by (simp add: word_unat_eq_iff)
    obtain r3 sd3 where r3: "read_literal_loop sd2 (p - 3) 0 = (r3, sd3)"
      by (cases "read_literal_loop sd2 (p - 3) 0")
    have "read_eob_extra sd1 cdfs1 ptype txSzCtx ?P eob0 =
        (case eob_bits_loop sd2 (?P - 2) 1 (if x \<noteq> 0 then eob0 + push_bit (p - 3) 1 else eob0) of
           (Inl e, sd3) \<Rightarrow>
             (Inl e, sd3, cdfs1\<lparr>eob_extra := list_update3 (eob_extra cdfs1) (unat txSzCtx) ptype (p - 3) cdf'\<rparr>)
         | (Inr eob, sd3) \<Rightarrow>
             (Inr eob, sd3, cdfs1\<lparr>eob_extra := list_update3 (eob_extra cdfs1) (unat txSzCtx) ptype (p - 3) cdf'\<rparr>))"
      unfolding read_eob_extra_def Let_def u3 s3 using c3 c2 c9
      by (simp add: rd Inr split del: if_split cong: if_cong)
    then show ?thesis
      unfolding rd Inr eob_bits_loop_eq [OF one] k lit r3 Let_def
      using x by (cases r3) (auto simp: push_bit_eq_mult r3)
  qed
qed

lemma eob_of_eobPt_word:
  assumes "1 \<le> p" and "p \<le> 11"
  shows "(if (word_of_nat p :: 32 word) < 2 then word_of_nat p
          else push_bit (unat (word_of_nat p - 2 :: 32 word)) 1 + 1) = word_of_nat (eob_of_eobPt p)"
proof -
  let ?P = "word_of_nat p :: 32 word"
  from assms have "p < 2 ^ 32" by simp
  then have u: "unat ?P = p" by (simp add: unat_of_nat)
  have c: "?P < 2 \<longleftrightarrow> p < 2" by (simp add: word_less_nat_alt u)
  show ?thesis
  proof (cases "p < 2")
    case True
    then show ?thesis by (simp add: c eob_of_eobPt_def)
  next
    case False
    then have "(2 :: 32 word) \<le> ?P" by (simp add: word_le_nat_alt u)
    from unat_sub [OF this] u have "unat (?P - 2) = p - 2" by simp
    with False show ?thesis by (simp add: c eob_of_eobPt_def push_bit_eq_mult)
  qed
qed

lemma eob_of_eobPt_le: "p \<le> 11 \<Longrightarrow> eob_of_eobPt p \<le> 513"
proof -
  assume p: "p \<le> 11"
  then have "p - 2 \<le> 9" by simp
  then have "(2 :: nat) ^ (p - 2) \<le> 2 ^ 9" by (intro power_increasing) simp_all
  with p show ?thesis by (simp add: eob_of_eobPt_def)
qed

text \<open>
  Claim C6: for every transform size of the enumeration (\<open>tx_size < 19\<close>), the part of the
  coefficient decoder that derives \<open>eob\<close> does what the specification says. With \<open>eobPt\<close> the
  decoded \<open>eob_pt\<close> symbol plus one, \<open>eob\<close> starts as \<open>eobPt\<close> when \<open>eobPt < 2\<close> and as
  \<open>(1 << (eobPt - 2)) + 1\<close> otherwise; when \<open>eobPt \<ge> 3\<close> one symbol is read from
  \<open>eob_extra[txSzCtx][ptype][eobPt - 3]\<close> and adds \<open>1 << (eobPt - 3)\<close> if it is 1, and then exactly
  \<open>eobPt - 3\<close> raw bits are read, most significant first, and added as the number they spell
  (a literal of \<open>eobPt - 3\<close> bits); the decoding fails unless \<open>0 < eob \<le> segEob\<close>, where
  \<open>segEob\<close> is \<open>min (width * height) 1024\<close>, and 512 for the 16 by 64 and 64 by 16 transforms.
\<close>

theorem eob_construction:
  assumes tx: "tx_size < AV1_TX_SIZES_ALL"
  shows "decode_eob sd coeff_cdfs ptype txSzCtx tx_size tx_type =
     eob_by_claim (read_eob_pt sd coeff_cdfs ptype tx_size tx_type) ptype (unat txSzCtx) (unat tx_size)"
proof -
  obtain r sd1 cdfs1 where pt: "read_eob_pt sd coeff_cdfs ptype tx_size tx_type = (r, sd1, cdfs1)"
    by (cases "read_eob_pt sd coeff_cdfs ptype tx_size tx_type")
  from tx have ntx: "\<not> AV1_TX_SIZES_ALL \<le> tx_size" by simp
  show ?thesis
  proof (cases r)
    case (Inl e)
    then show ?thesis using ntx by (simp add: decode_eob_def eob_by_claim_def pt)
  next
    case (Inr sym)
    define p where "p = unat sym + 1"
    from read_eob_pt_less [OF pt [unfolded Inr]] have p: "1 \<le> p" "p \<le> 11" by (simp_all add: p_def)
    have sp: "sym + 1 = word_of_nat p" by (simp add: p_def)
    note e0 = eob_of_eobPt_word [OF p]
    note le0 = eob_of_eobPt_le [OF p(2)]
    have d: "decode_eob sd coeff_cdfs ptype txSzCtx tx_size tx_type =
        (case read_eob_extra sd1 cdfs1 ptype txSzCtx (word_of_nat p) (word_of_nat (eob_of_eobPt p)) of
           (Inl e, sd3, cdfs3) \<Rightarrow> (Inl e, sd3, cdfs3)
         | (Inr eob, sd3, cdfs3) \<Rightarrow> check_seg_eob tx_size eob sd3 cdfs3)"
      using ntx by (simp add: decode_eob_def pt Inr Let_def sp e0)
    have s: "eob_by_claim (Inr sym, sd1, cdfs1) ptype (unat txSzCtx) (unat tx_size) =
        (if p < 3 then eob_checked (unat tx_size) (eob_of_eobPt p) sd1 cdfs1
         else
           case av1_symbol_read_symbol sd1 (eob_extra cdfs1 ! unat txSzCtx ! ptype ! (p - 3)) 2 of
             (r, sd2, cdf') \<Rightarrow>
               let cdfs2 = cdfs1\<lparr>eob_extra :=
                     list_update3 (eob_extra cdfs1) (unat txSzCtx) ptype (p - 3) cdf'\<rparr>
               in case r of
                    Inl e \<Rightarrow> (Inl e, sd2, cdfs2)
                  | Inr eob_extra_sym \<Rightarrow>
                      (case av1_symbol_read_literal sd2 (p - 3) of
                         (Inl e, sd3) \<Rightarrow> (Inl e, sd3, cdfs2)
                       | (Inr bits, sd3) \<Rightarrow>
                           eob_checked (unat tx_size)
                             (eob_of_eobPt p
                              + (if eob_extra_sym = 1 then 2 ^ (p - 3) else 0) + unat bits)
                             sd3 cdfs2))"
      unfolding p_def eob_by_claim_def Let_def prod.case sum.case ..
    show ?thesis
    proof (cases "p < 3")
      case True
      from le0 have "eob_of_eobPt p < 2 ^ 32" by simp
      from check_seg_eob_eq [OF tx this] True show ?thesis
        unfolding d read_eob_extra_none [OF True] pt Inr s
        by simp
    next
      case False
      then have p3: "3 \<le> p" by simp
      obtain r2 sd2 cdf' where rd:
        "av1_symbol_read_symbol sd1 (eob_extra cdfs1 ! unat txSzCtx ! ptype ! (p - 3)) 2 = (r2, sd2, cdf')"
        by (cases "av1_symbol_read_symbol sd1 (eob_extra cdfs1 ! unat txSzCtx ! ptype ! (p - 3)) 2")
      show ?thesis
      proof (cases r2)
        case (Inl e)
        then show ?thesis
          unfolding d read_eob_extra_some [OF p3 p(2)] pt Inr s
          using False by (simp add: rd Let_def)
      next
        case x: (Inr x)
        obtain r3 sd3 where r3: "av1_symbol_read_literal sd2 (p - 3) = (r3, sd3)"
          by (cases "av1_symbol_read_literal sd2 (p - 3)")
        show ?thesis
        proof (cases r3)
          case (Inl e)
          then show ?thesis
            unfolding d read_eob_extra_some [OF p3 p(2)] pt Inr s
            using False by (simp add: rd x r3 Let_def)
        next
          case bits: (Inr bits)
          from r3 bits p(2) have "read_literal_loop sd2 (p - 3) 0 = (Inr bits, sd3)"
            by (simp add: av1_symbol_read_literal_def split: if_splits)
          from read_literal_loop_bound [OF this, of 0] p(2) have "unat bits < 2 ^ (p - 3)" by simp
          also from p(2) have "(2 :: nat) ^ (p - 3) \<le> 2 ^ 8" by (intro power_increasing) simp_all
          finally have bb: "unat bits < 256" by simp
          from p(2) have pw: "(2 :: nat) ^ (p - 3) \<le> 256"
            using power_increasing [of "p - 3" 8 "2 :: nat"] by simp
          define N where "N = eob_of_eobPt p + (if x = 1 then 2 ^ (p - 3) else 0) + unat bits"
          from le0 bb pw have "N < 2 ^ 32" by (simp add: N_def)
          note ck = check_seg_eob_eq [OF tx this, of sd3]
          have w: "(word_of_nat N :: 32 word) =
              word_of_nat (eob_of_eobPt p) + (if x = 1 then 2 ^ (p - 3) else 0) + bits"
            by (simp add: N_def)
          show ?thesis
            unfolding d read_eob_extra_some [OF p3 p(2)] pt Inr s
            using False by (simp add: rd x r3 bits Let_def w [symmetric] ck N_def [symmetric])
        qed
      qed
    qed
  qed
qed

lemma init_kat_eob: "av1_symbol_init [0xE1, 0x35, 0x55, 0xAA, 0x80, 0] False = Inr kat_sd_eob"
  by code_simp

text \<open>
  The theorem at an 8 by 8 transform (\<open>tx_size = 1\<close>, \<open>txSzCtx = 1\<close>): the \<open>eob_pt\<close> symbol is
  6, so \<open>eobPt = 7\<close> and \<open>eob\<close> starts as 33; the \<open>eob_extra\<close> symbol is 0 and the four raw bits
  are 0101, so \<open>eob = 38\<close>, which is at most \<open>segEob = 64\<close>.
\<close>

theorem eob_construction_witness:
  "(1 :: 32 word) < AV1_TX_SIZES_ALL \<and>
   fst (read_eob_pt kat_sd_eob kat_cdfs 0 1 1) = Inr 6 \<and>
   eob_of_eobPt 7 = 33 \<and> seg_eob 1 = 64 \<and>
   fst (decode_eob kat_sd_eob kat_cdfs 0 1 1 1) = Inr 38 \<and>
   decode_eob kat_sd_eob kat_cdfs 0 1 1 1 = eob_by_claim (read_eob_pt kat_sd_eob kat_cdfs 0 1 1) 0 1 1"
proof -
  have h: "(1 :: 32 word) < AV1_TX_SIZES_ALL" by (simp add: AV1_TX_SIZES_ALL_def)
  have a: "fst (read_eob_pt kat_sd_eob kat_cdfs 0 1 1) = Inr 6" by code_simp
  have b: "eob_of_eobPt 7 = 33" "seg_eob 1 = 64" by code_simp+
  have c: "fst (decode_eob kat_sd_eob kat_cdfs 0 1 1 1) = Inr 38" by code_simp
  from eob_construction [OF h, of kat_sd_eob kat_cdfs 0 1 1]
  have "decode_eob kat_sd_eob kat_cdfs 0 1 1 1 = eob_by_claim (read_eob_pt kat_sd_eob kat_cdfs 0 1 1) 0 1 1"
    by simp
  with h a b c show ?thesis by blast
qed

subsection \<open>The all-zero transform block\<close>

lemma init_kat_ones: "av1_symbol_init [0xFF, 0xFF] False = Inr kat_sd_ones"
  by code_simp

lemma read_all_zero_kat:
  "read_all_zero kat_sd_ones kat_cdfs_skip kat_coeff_ctx 0 0 1 8 8 0 =
     (Inr 1, kat_sd_ones_after, kat_cdfs_skip_after)"
  by code_simp

text \<open>
  Claim C2 on the code: when the \<open>all_zero\<close> symbol decodes to a value other than 0, the
  coefficient decoder returns success straight after that read, with the decoder and the CDFs
  as the read left them (no further symbol is read) and with the coefficient contexts exactly
  as they were on entry: nothing is written to \<open>above_level\<close>, \<open>left_level\<close>, \<open>above_dc\<close> or
  \<open>left_dc\<close>. The update of the contexts is inside the branch \<open>all_zero == 0\<close> only.
\<close>

theorem all_zero_leaves_contexts:
  assumes "read_all_zero sd coeff_cdfs coeff_ctx plane x4 y4 bw_px bh_px tx_size = (Inr all_zero, sd1, cdfs1)"
    and "all_zero \<noteq> 0"
  shows "decode_coeffs_luma_one_tx_block rest sd coeff_cdfs coeff_ctx plane x4 y4 bw_px bh_px tx_size tx_type =
     (Inr (), sd1, cdfs1, coeff_ctx)"
  using assms by (simp add: decode_coeffs_luma_one_tx_block_def)

text \<open>
  At the transform block described above the \<open>all_zero\<close> symbol is 1, and the call returns with
  \<open>above_level[0][0]\<close> still 5 and \<open>above_dc[0][0]\<close> still 1, where the claim has 0 written to
  both.
\<close>

theorem all_zero_leaves_contexts_witness:
  "read_all_zero kat_sd_ones kat_cdfs_skip kat_coeff_ctx 0 0 1 8 8 0 =
     (Inr 1, kat_sd_ones_after, kat_cdfs_skip_after) \<and>
   (\<forall>rest. decode_coeffs_luma_one_tx_block rest kat_sd_ones kat_cdfs_skip kat_coeff_ctx 0 0 1 8 8 0 1 =
     (Inr (), kat_sd_ones_after, kat_cdfs_skip_after, kat_coeff_ctx)) \<and>
   above_level kat_coeff_ctx ! 0 = Some [5, 3] \<and> above_dc kat_coeff_ctx ! 0 = Some [1, 2]"
proof -
  have one: "(1 :: 32 word) \<noteq> 0" by simp
  from all_zero_leaves_contexts [OF read_all_zero_kat one]
  have "\<forall>rest. decode_coeffs_luma_one_tx_block rest kat_sd_ones kat_cdfs_skip kat_coeff_ctx 0 0 1 8 8 0 1 =
     (Inr (), kat_sd_ones_after, kat_cdfs_skip_after, kat_coeff_ctx)"
    by blast
  moreover have "above_level kat_coeff_ctx ! 0 = Some [5, 3]" "above_dc kat_coeff_ctx ! 0 = Some [1, 2]"
    by (simp_all add: kat_coeff_ctx_def)
  ultimately show ?thesis using read_all_zero_kat by blast
qed

subsection \<open>The block with skip set\<close>

lemma kat_block_init: "av1_symbol_init [252, 122, 0, 0, 0, 0, 0, 0] False = Inr kat_sd_block"
  by code_simp

lemma kat_block_skip_ctx: "skip_ctx_from_mi_grid kat_mi_grid 2 2 0 0 = 0"
  by code_simp

lemma kat_block_y_mode_ctx: "size_group_from_wlog2_hlog2 1 1 = 1"
  by code_simp

lemma kat_block_read_skip:
  "av1_symbol_read_symbol kat_sd_block (skip_cdfs kat_mode_cdfs ! unat (0 :: 32 word)) 2 =
     (Inr 1, \<lparr>br = \<lparr>data = [252, 122, 0, 0, 0, 0, 0, 0], bitpos = 20\<rparr>, symbol_value = 14431,
        symbol_range = 34944, symbol_max_bits = 44, disable_cdf_update = False\<rparr>, [29692, 32768, 1])"
  by code_simp

lemma kat_block_read_y_mode:
  "av1_symbol_read_symbol
     \<lparr>br = \<lparr>data = [252, 122, 0, 0, 0, 0, 0, 0], bitpos = 20\<rparr>, symbol_value = 14431,
        symbol_range = 34944, symbol_max_bits = 44, disable_cdf_update = False\<rparr>
     (y_mode_cdfs (kat_mode_cdfs\<lparr>skip_cdfs := (skip_cdfs kat_mode_cdfs)[unat (0 :: 32 word) := [29692, 32768, 1]]\<rparr>) !
        unat (1 :: 32 word)) AV1_INTRA_MODES =
     (Inr 1, kat_sd_block_after,
      [18090, 20248, 22947, 23613, 24225, 24902, 25753, 27532, 28296, 29796, 30071, 30911, 32768, 1])"
  by code_simp

lemma kat_block_mode_cdfs:
  "(kat_mode_cdfs\<lparr>skip_cdfs := (skip_cdfs kat_mode_cdfs)[unat (0 :: 32 word) := [29692, 32768, 1]]\<rparr>)
     \<lparr>y_mode_cdfs := (y_mode_cdfs (kat_mode_cdfs\<lparr>skip_cdfs := (skip_cdfs kat_mode_cdfs)[unat (0 :: 32 word) := [29692, 32768, 1]]\<rparr>))
        [unat (1 :: 32 word) :=
           [18090, 20248, 22947, 23613, 24225, 24902, 25753, 27532, 28296, 29796, 30071, 30911, 32768, 1]]\<rparr> =
   kat_mode_cdfs_after"
  by code_simp

lemma kat_block_mi_grid:
  "mi_set_y_mode_block (mi_set_skip_block kat_mi_grid 2 2 0 0 1 1 1) 2 2 0 0 1 1 1 = kat_mi_grid_after"
  by code_simp

text \<open>
  Claim C1 on the code: when the \<open>skip\<close> symbol of a leaf block decodes to a value other than
  0 (and the read of \<open>y_mode\<close> succeeds), the block decoder returns success straight after the
  read of \<open>y_mode\<close>. The decoder state is the one that the two reads leave, the only CDFs
  adapted are \<open>skip[ctx]\<close> and \<open>y_mode[y_mode_ctx]\<close>, the grid has the two values recorded, and
  nothing of the statements between \<open>if (skip) goto block_done\<close> and the label runs: no angle
  delta, \<open>uv_mode\<close>, CFL, palette, filter-intra, transform size or transform type symbol is
  read, and no coefficient symbol either.
\<close>

theorem skip_block_reads_two_symbols:
  assumes "ctx = skip_ctx_from_mi_grid mi_grid mi_rows mi_cols r c"
    and "av1_symbol_read_symbol sd (skip_cdfs mode_cdfs ! unat ctx) 2 = (Inr skip, sd1, cdf1)"
    and "skip \<noteq> 0"
    and "mode_cdfs1 = mode_cdfs\<lparr>skip_cdfs := (skip_cdfs mode_cdfs)[unat ctx := cdf1]\<rparr>"
    and "y_mode_ctx = (if AV1_Y_MODE_CONTEXTS \<le> size_group_from_wlog2_hlog2 wlog2 hlog2
                       then AV1_Y_MODE_CONTEXTS - 1 else size_group_from_wlog2_hlog2 wlog2 hlog2)"
    and "av1_symbol_read_symbol sd1 (y_mode_cdfs mode_cdfs1 ! unat y_mode_ctx) AV1_INTRA_MODES =
           (Inr y_mode, sd2, cdf2)"
  shows "decode_block_stub rest sd mode_cdfs coeff_cdfs coeff_ctx mi_grid mi_rows mi_cols r c wlog2 hlog2 =
     (Inr (), sd2, mode_cdfs1\<lparr>y_mode_cdfs := (y_mode_cdfs mode_cdfs1)[unat y_mode_ctx := cdf2]\<rparr>,
      coeff_cdfs, coeff_ctx,
      mi_set_y_mode_block (mi_set_skip_block mi_grid mi_rows mi_cols r c wlog2 hlog2 skip)
        mi_rows mi_cols r c wlog2 hlog2 y_mode)"
  using assms by (simp add: decode_block_stub_def read_skip_and_y_mode_def Let_def)

text \<open>
  At the first block of the tile described above \<open>skip\<close> decodes to 1 and \<open>y_mode\<close> to 1
  (\<open>V_PRED\<close>, a directional mode, after which a block with \<open>skip == 0\<close> reads an angle delta):
  the call returns with the bit position at 25, the 15 bits of the initialisation and the
  5 + 5 bits that the two reads shifted in, whatever the statements after the jump would do.
\<close>

theorem skip_block_reads_two_symbols_witness:
  "av1_symbol_init [252, 122, 0, 0, 0, 0, 0, 0] False = Inr kat_sd_block \<and>
   (\<forall>rest coeff_cdfs coeff_ctx.
      decode_block_stub rest kat_sd_block kat_mode_cdfs coeff_cdfs coeff_ctx kat_mi_grid 2 2 0 0 1 1 =
        (Inr (), kat_sd_block_after, kat_mode_cdfs_after, coeff_cdfs, coeff_ctx, kat_mi_grid_after)) \<and>
   mi_y_mode (kat_mi_grid_after ! 0) = 1 \<and> intra_directional_index 1 = Some 0 \<and>
   bitpos (br kat_sd_block_after) = 25"
proof -
  have one: "(1 :: 32 word) \<noteq> 0" by simp
  have yc: "(1 :: 32 word) = (if AV1_Y_MODE_CONTEXTS \<le> size_group_from_wlog2_hlog2 1 1
                       then AV1_Y_MODE_CONTEXTS - 1 else size_group_from_wlog2_hlog2 1 1)"
    by code_simp
  have "decode_block_stub rest kat_sd_block kat_mode_cdfs coeff_cdfs coeff_ctx kat_mi_grid 2 2 0 0 1 1 =
        (Inr (), kat_sd_block_after, kat_mode_cdfs_after, coeff_cdfs, coeff_ctx, kat_mi_grid_after)"
    for rest coeff_cdfs coeff_ctx
    using skip_block_reads_two_symbols [OF kat_block_skip_ctx [symmetric] kat_block_read_skip one refl yc
        kat_block_read_y_mode, of rest coeff_cdfs coeff_ctx]
    by (simp only: kat_block_mode_cdfs kat_block_mi_grid)
  moreover have "mi_y_mode (kat_mi_grid_after ! 0) = 1" "intra_directional_index 1 = Some 0"
    "bitpos (br kat_sd_block_after) = 25"
    by (simp_all add: kat_mi_grid_after_def kat_mi_def intra_directional_index_def kat_sd_block_after_def)
  ultimately show ?thesis using kat_block_init by blast
qed

end
